theory Spec2Isabelle
  imports Main "HOL-Library.Char_ord" "HOL-Library.List_Lexorder" "HOL-Library.AList"
    "HOL-Library.Multiset"
begin

section \<open>Configuration values (package config)\<close>

text \<open>
  The struct \<^verbatim>\<open>BaseImage\<close> of the config package. A \<^verbatim>\<open>*BaseImage\<close> that is
  stored anywhere is never nil: \<^verbatim>\<open>UnmarshalYAML\<close> allocates it, \<^verbatim>\<open>Merge\<close> and
  \<^verbatim>\<open>deepCopy\<close> allocate it, and \<^verbatim>\<open>NewData\<close> stores it only under
  \<^verbatim>\<open>mergedConfig.BaseImage != nil\<close>. An absent descriptor is \<open>None\<close>.
\<close>

record BaseImage =
  Name :: string
  Source :: string

text \<open>
  The dynamic type \<^verbatim>\<open>interface{}\<close> as far as the program inspects it: strings,
  descriptors, \<^verbatim>\<open>map[string]interface{}\<close>, \<^verbatim>\<open>[]interface{}\<close>, and the scalars that
  only ever reach a \<^verbatim>\<open>default\<close> branch. A Go map is an association list whose keys are
  distinct (\<open>wf_value\<close> below); the order of the entries stands for the unspecified
  iteration order of \<^verbatim>\<open>range\<close>.
\<close>

datatype gvalue =
    VNil
  | VBool bool
  | VInt int
  | VString string
  | VBaseImage BaseImage
  | VMap "(string \<times> gvalue) list"
  | VSlice "gvalue list"

record ImageConfig =
  BaseImage :: "BaseImage option"
  Values :: "(string \<times> gvalue) list"

text \<open>
  \<^verbatim>\<open>deepCopyValue\<close>. A loop \<^verbatim>\<open>for k, v := range m { result[k] = f(v) }\<close> is a fold of
  map assignments over the entries; \<^verbatim>\<open>result[k] = x\<close> is \<open>AList.update k x result\<close>.
  Every other value, a \<^verbatim>\<open>*BaseImage\<close> included, is returned as it is.
\<close>

fun deepCopyValue :: "gvalue \<Rightarrow> gvalue" where
  "deepCopyValue (VMap v) =
     VMap (fold (\<lambda>kv result. AList.update (fst kv) (deepCopyValue (snd kv)) result) v [])"
| "deepCopyValue (VSlice v) = VSlice (map deepCopyValue v)"
| "deepCopyValue v = v"

text \<open>
  \<^verbatim>\<open>mergeInto\<close> changes \<^verbatim>\<open>dest\<close> in place; the model returns it. In the recursive case
  the Go code changes the nested map that \<^verbatim>\<open>dest[k]\<close> holds, which is the assignment of
  the merged map to \<^verbatim>\<open>dest[k]\<close>: \<^verbatim>\<open>dest\<close> is built by \<^verbatim>\<open>deepCopyValue\<close> and by
  \<^verbatim>\<open>mergeInto\<close> itself, so no other key holds the same map.
\<close>

function mergeInto ::
  "(string \<times> gvalue) list \<Rightarrow> (string \<times> gvalue) list \<Rightarrow> (string \<times> gvalue) list" where
  "mergeInto dest [] = dest"
| "mergeInto dest ((k, srcVal) # source) =
     mergeInto
       (case map_of dest k of
          Some (VMap destMap) \<Rightarrow>
            (case srcVal of
               VMap srcMap \<Rightarrow> AList.update k (VMap (mergeInto destMap srcMap)) dest
             | _ \<Rightarrow> AList.update k (deepCopyValue srcVal) dest)
        | _ \<Rightarrow> AList.update k (deepCopyValue srcVal) dest)
       source"
  by pat_completeness auto
termination
  by (relation "measure (\<lambda>(dest, source). size (VMap source))") auto

text \<open>\<^verbatim>\<open>(*ImageConfig).deepCopy\<close>; a nil receiver is \<open>None\<close>.\<close>

definition deepCopy :: "ImageConfig option \<Rightarrow> ImageConfig option" where
  "deepCopy ic =
    (case ic of
       None \<Rightarrow> None
     | Some c \<Rightarrow>
         Some \<lparr>ImageConfig.BaseImage =
                 (case ImageConfig.BaseImage c of
                    Some b \<Rightarrow> Some \<lparr>Name = Name b, Source = Source b\<rparr>
                  | None \<Rightarrow> None),
               ImageConfig.Values =
                 fold (\<lambda>kv result. AList.update (fst kv) (deepCopyValue (snd kv)) result)
                   (ImageConfig.Values c) []\<rparr>)"

text \<open>
  \<^verbatim>\<open>(*ImageConfig).Merge\<close>: the receiver \<open>ic\<close> is the overlay, the argument the
  defaults.
\<close>

definition Merge :: "ImageConfig option \<Rightarrow> ImageConfig option \<Rightarrow> ImageConfig option" where
  "Merge ic defaults =
    (case defaults of
       None \<Rightarrow> deepCopy ic
     | Some dflt \<Rightarrow>
        (case ic of
           None \<Rightarrow> deepCopy defaults
         | Some c \<Rightarrow>
             Some \<lparr>ImageConfig.BaseImage =
                     (case ImageConfig.BaseImage c of
                        Some b \<Rightarrow> Some \<lparr>Name = Name b, Source = Source b\<rparr>
                      | None \<Rightarrow>
                         (case ImageConfig.BaseImage dflt of
                            Some b \<Rightarrow> Some \<lparr>Name = Name b, Source = Source b\<rparr>
                          | None \<Rightarrow> None)),
                   ImageConfig.Values =
                     mergeInto
                       (fold (\<lambda>kv result. AList.update (fst kv) (deepCopyValue (snd kv)) result)
                          (ImageConfig.Values dflt) [])
                       (ImageConfig.Values c)\<rparr>))"

text \<open>The keys of a Go map are distinct, at every depth.\<close>

fun wf_value :: "gvalue \<Rightarrow> bool" where
  "wf_value (VMap m) = (distinct (map fst m) \<and> (\<forall>kv \<in> set m. wf_value (snd kv)))"
| "wf_value (VSlice xs) = (\<forall>x \<in> set xs. wf_value x)"
| "wf_value v = True"

section \<open>The render data context (package template, data.go)\<close>

record Data =
  Values :: "string \<rightharpoonup> gvalue"
  rootPathIncluded :: bool
  generationMessage :: string

definition generateMessage :: "string \<Rightarrow> string" where
  "generateMessage imageName =
     ''# GENERATED FILE, DO NOT MODIFY!'' @ [CHR 0x0A] @
     ''#'' @ [CHR 0x0A] @
     ''# To update this file please edit the relevant template file and run:'' @ [CHR 0x0A] @
     ''#   go run tool/main.go generate image '' @ imageName @ [CHR 0x0A] @
     ''#'' @ [CHR 0x0A] @
     ''# Or regenerate all images with:'' @ [CHR 0x0A] @
     ''#   go run tool/main.go generate all''"

definition NewData :: "ImageConfig \<Rightarrow> string \<Rightarrow> Data" where
  "NewData mergedConfig imageName =
    (let data0 = (case ImageConfig.BaseImage mergedConfig of
                    Some b \<Rightarrow> [''base_image'' \<mapsto> VBaseImage b]
                  | None \<Rightarrow> Map.empty);
         data1 = fold (\<lambda>(k, v) data. data(k \<mapsto> v)) (ImageConfig.Values mergedConfig) data0;
         data2 = data1(''image_name'' \<mapsto> VString imageName)
     in \<lparr>Data.Values = data2, rootPathIncluded = False,
         generationMessage = generateMessage imageName\<rparr>)"

text \<open>\<^verbatim>\<open>v["name"].(string)\<close> with the zero value of \<^verbatim>\<open>imageName\<close> kept otherwise.\<close>

definition stringField :: "(string \<times> gvalue) list \<Rightarrow> string \<Rightarrow> string" where
  "stringField v k = (case map_of v k of Some (VString s) \<Rightarrow> s | _ \<Rightarrow> [])"

text \<open>
  Lines 80 to 111 of \<^verbatim>\<open>fromImage\<close>: everything after the type switch has set
  \<^verbatim>\<open>imageName\<close> and \<^verbatim>\<open>imageSource\<close>. The result is the text returned and the
  context as the call leaves it.
\<close>

definition emitFrom :: "Data \<Rightarrow> string \<Rightarrow> string \<Rightarrow> string \<times> Data" where
  "emitFrom d imageName imageSource =
    (if imageSource = ''dockerhub'' then (''FROM '' @ imageName, d)
     else
       let needsRegistryArg = (imageSource \<noteq> ''dockerhub'' \<and> \<not> rootPathIncluded d);
           needsRegistryPath = (imageSource \<noteq> ''dockerhub'');
           imagePath = (if needsRegistryPath then ''${REGISTRY}/'' @ imageName else imageName)
       in
         if needsRegistryArg then
           (case Data.Values d ''registry'' of
              None \<Rightarrow>
                (''# ERROR: registry not set in config'' @ [CHR 0x0A] @ ''FROM '' @ imagePath, d)
            | Some (VString registry) \<Rightarrow>
                ((''ARG REGISTRY='' @ registry @ [CHR 0x0A]) @ (''FROM '' @ imagePath),
                 d\<lparr>rootPathIncluded := True\<rparr>)
            | Some _ \<Rightarrow>
                (''# ERROR: registry is not a string'' @ [CHR 0x0A] @ ''FROM '' @ imagePath, d))
         else (''FROM '' @ imagePath, d))"

text \<open>
  \<^verbatim>\<open>fromImage\<close>. The string case calls itself on the value found under the key, and
  nothing bounds that recursion, so a call that does not return is \<open>None\<close>.
  The parameter \<open>sprintV\<close> is \<^verbatim>\<open>fmt.Sprintf("%v", _)\<close> of the Go standard library.
\<close>

partial_function (option) fromImage ::
  "(gvalue \<Rightarrow> string) \<Rightarrow> Data \<Rightarrow> gvalue \<Rightarrow> (string \<times> Data) option" where
  "fromImage sprintV d baseImage =
    (case baseImage of
       VString v \<Rightarrow>
         (case Data.Values d v of
            Some val \<Rightarrow> fromImage sprintV d val
          | None \<Rightarrow> Some (emitFrom d v []))
     | VBaseImage v \<Rightarrow> Some (emitFrom d (Name v) (Source v))
     | VMap v \<Rightarrow> Some (emitFrom d (stringField v ''name'') (stringField v ''source''))
     | _ \<Rightarrow> Some (emitFrom d (sprintV baseImage) []))"

text \<open>The template function \<^verbatim>\<open>from_image\<close> registered by \<^verbatim>\<open>functions\<close>.\<close>

definition from_image :: "(gvalue \<Rightarrow> string) \<Rightarrow> Data \<Rightarrow> gvalue \<Rightarrow> (string \<times> Data) option" where
  "from_image sprintV d arg =
    (case arg of
       VString argStr \<Rightarrow>
         (case Data.Values d argStr of
            Some val \<Rightarrow> fromImage sprintV d val
          | None \<Rightarrow> fromImage sprintV d arg)
     | _ \<Rightarrow> fromImage sprintV d arg)"

text \<open>
  The flag is only ever set by the branch of \<^verbatim>\<open>fromImage\<close> that has just read a string
  under \<^verbatim>\<open>registry\<close>: in every context that \<^verbatim>\<open>NewData\<close> builds and \<^verbatim>\<open>fromImage\<close>
  then changes, a set flag comes with a string registry.
\<close>

definition flagConsistent :: "Data \<Rightarrow> bool" where
  "flagConsistent d =
    (case Data.Values d ''registry'' of
       Some (VString r) \<Rightarrow> True
     | _ \<Rightarrow> \<not> rootPathIncluded d)"

text \<open>
  Indirection through the values: key \<open>k\<close> leads to key \<open>k'\<close> when the value under
  \<open>k\<close> is the string \<open>k'\<close>. A value is a key when it is a string that the values hold;
  following keys from a reference ends at the first value that is not a key: a
  descriptor, a literal name, or any other value.
\<close>

definition keyChain :: "Data \<Rightarrow> (string \<times> string) set" where
  "keyChain d = {(k, k'). Data.Values d k = Some (VString k')}"

definition isKey :: "Data \<Rightarrow> gvalue \<Rightarrow> bool" where
  "isKey d v = (case v of VString k \<Rightarrow> Data.Values d k \<noteq> None | _ \<Rightarrow> False)"

inductive resolvesTo :: "Data \<Rightarrow> gvalue \<Rightarrow> gvalue \<Rightarrow> bool" for d where
  follow: "Data.Values d k = Some v \<Longrightarrow> resolvesTo d v t \<Longrightarrow> resolvesTo d (VString k) t"
| stop: "\<not> isKey d t \<Longrightarrow> resolvesTo d t t"

code_pred resolvesTo .

text \<open>The origin text of a value at the end of a chain, by the type switch.\<close>

definition terminalOrigin :: "(gvalue \<Rightarrow> string) \<Rightarrow> Data \<Rightarrow> gvalue \<Rightarrow> string \<times> Data" where
  "terminalOrigin sprintV d t =
    (case t of
       VString n \<Rightarrow> emitFrom d n []
     | VBaseImage b \<Rightarrow> emitFrom d (Name b) (Source b)
     | VMap m \<Rightarrow> emitFrom d (stringField m ''name'') (stringField m ''source'')
     | _ \<Rightarrow> emitFrom d (sprintV t) [])"

section \<open>Merging an overlay over defaults\<close>

lemma update_fresh: "k \<notin> fst ` set al \<Longrightarrow> AList.update k v al = al @ [(k, v)]"
  by (induction al) auto

lemma fold_update_append:
  "distinct (map fst xs) \<Longrightarrow> fst ` set xs \<inter> fst ` set acc = {} \<Longrightarrow>
   fold (\<lambda>kv result. AList.update (fst kv) (f (snd kv)) result) xs acc
     = acc @ map (\<lambda>kv. (fst kv, f (snd kv))) xs"
proof (induction xs arbitrary: acc)
  case Nil
  then show ?case by simp
next
  case (Cons x xs)
  have fresh: "fst x \<notin> fst ` set acc"
    using Cons.prems(2) by auto
  have "fst ` set xs \<inter> fst ` set (acc @ [(fst x, f (snd x))]) = {}"
    using Cons.prems by (auto simp: image_iff)
  with Cons.IH [of "acc @ [(fst x, f (snd x))]"] Cons.prems(1) fresh
  show ?case
    by (simp add: update_fresh)
qed

lemma fold_update_copy:
  "distinct (map fst xs) \<Longrightarrow>
   fold (\<lambda>kv result. AList.update (fst kv) (f (snd kv)) result) xs []
     = map (\<lambda>kv. (fst kv, f (snd kv))) xs"
  using fold_update_append [of xs "[]" f] by simp

lemma deepCopyValue_id: "wf_value v \<Longrightarrow> deepCopyValue v = v"
proof (induction v rule: deepCopyValue.induct)
  case (1 v)
  then have "map (\<lambda>kv. (fst kv, deepCopyValue (snd kv))) v = map (\<lambda>kv. kv) v"
    by (intro map_cong) auto
  with 1 show ?case
    by (simp add: fold_update_copy)
next
  case (2 v)
  then have "map deepCopyValue v = map (\<lambda>x. x) v"
    by (intro map_cong) auto
  then show ?case by simp
qed simp_all

lemma map_of_copy:
  "distinct (map fst xs) \<Longrightarrow>
   map_of (fold (\<lambda>kv result. AList.update (fst kv) (f (snd kv)) result) xs []) k
     = map_option f (map_of xs k)"
proof -
  have "map_of (map (\<lambda>kv. (fst kv, f (snd kv))) xs) k = map_option f (map_of xs k)"
    by (induction xs) auto
  then show "distinct (map fst xs) \<Longrightarrow> ?thesis"
    by (simp add: fold_update_copy)
qed

lemma mergeInto_lookup:
  "distinct (map fst source) \<Longrightarrow>
   map_of (mergeInto dest source) k =
     (case map_of source k of
        None \<Rightarrow> map_of dest k
      | Some srcVal \<Rightarrow>
          (case map_of dest k of
             Some (VMap destMap) \<Rightarrow>
               (case srcVal of
                  VMap srcMap \<Rightarrow> Some (VMap (mergeInto destMap srcMap))
                | _ \<Rightarrow> Some (deepCopyValue srcVal))
           | _ \<Rightarrow> Some (deepCopyValue srcVal)))"
proof (induction source arbitrary: dest)
  case Nil
  then show ?case by simp
next
  case (Cons e source)
  obtain k' srcVal where e: "e = (k', srcVal)" by (cases e)
  let ?dest' = "(case map_of dest k' of
          Some (VMap destMap) \<Rightarrow>
            (case srcVal of
               VMap srcMap \<Rightarrow> AList.update k' (VMap (mergeInto destMap srcMap)) dest
             | _ \<Rightarrow> AList.update k' (deepCopyValue srcVal) dest)
        | _ \<Rightarrow> AList.update k' (deepCopyValue srcVal) dest)"
  have step: "mergeInto dest (e # source) = mergeInto ?dest' source"
    by (simp add: e)
  have d: "distinct (map fst source)" and fresh: "map_of source k' = None"
    using Cons.prems by (auto simp: e map_of_eq_None_iff)
  have other: "map_of ?dest' k = map_of dest k" if "k \<noteq> k'"
    using that by (auto simp: update_conv' split: option.splits gvalue.splits)
  have same: "map_of ?dest' k' =
      (case map_of dest k' of
             Some (VMap destMap) \<Rightarrow>
               (case srcVal of
                  VMap srcMap \<Rightarrow> Some (VMap (mergeInto destMap srcMap))
                | _ \<Rightarrow> Some (deepCopyValue srcVal))
           | _ \<Rightarrow> Some (deepCopyValue srcVal))"
    by (auto simp: update_conv' split: option.splits gvalue.splits)
  show ?case
  proof (cases "k = k'")
    case True
    then show ?thesis
      using Cons.IH [OF d, of ?dest'] fresh same by (simp add: step e)
  next
    case False
    then show ?thesis
      using Cons.IH [OF d, of ?dest'] other [OF False] 
      by (simp add: step e split: option.splits)
  qed
qed

text \<open>
  C5. For two present overlays whose keys are distinct (they are Go maps), \<^verbatim>\<open>Merge\<close>
  returns a configuration whose descriptor is the overlay's if it has one and the
  defaults' otherwise, each taken whole; and whose value under every key \<open>k\<close> is: the
  deep copy of the defaults' value when the overlay has no \<open>k\<close>; the merge of the two
  nested maps when the deep copy of the defaults' value and the overlay's value are
  both maps; the deep copy of the overlay's value otherwise. The merge of two nested
  maps obeys the same rule, at every depth.
\<close>

theorem merge_overlay_over_defaults:
  assumes "distinct (map fst (ImageConfig.Values ic))"
    and "distinct (map fst (ImageConfig.Values defaults))"
  shows "\<exists>result. Merge (Some ic) (Some defaults) = Some result
     \<and> ImageConfig.BaseImage result =
         (case ImageConfig.BaseImage ic of
            Some b \<Rightarrow> Some b
          | None \<Rightarrow> ImageConfig.BaseImage defaults)
     \<and> (\<forall>k. map_of (ImageConfig.Values result) k =
          (case map_of (ImageConfig.Values ic) k of
             None \<Rightarrow> map_option deepCopyValue (map_of (ImageConfig.Values defaults) k)
           | Some srcVal \<Rightarrow>
               (case map_option deepCopyValue (map_of (ImageConfig.Values defaults) k) of
                  Some (VMap destMap) \<Rightarrow>
                    (case srcVal of
                       VMap srcMap \<Rightarrow> Some (VMap (mergeInto destMap srcMap))
                     | _ \<Rightarrow> Some (deepCopyValue srcVal))
                | _ \<Rightarrow> Some (deepCopyValue srcVal))))
     \<and> (\<forall>destMap srcMap k. distinct (map fst srcMap) \<longrightarrow>
          map_of (mergeInto destMap srcMap) k =
            (case map_of srcMap k of
               None \<Rightarrow> map_of destMap k
             | Some srcVal \<Rightarrow>
                 (case map_of destMap k of
                    Some (VMap destMap') \<Rightarrow>
                      (case srcVal of
                         VMap srcMap' \<Rightarrow> Some (VMap (mergeInto destMap' srcMap'))
                       | _ \<Rightarrow> Some (deepCopyValue srcVal))
                  | _ \<Rightarrow> Some (deepCopyValue srcVal))))"
proof -
  let ?result = "the (Merge (Some ic) (Some defaults))"
  have r: "Merge (Some ic) (Some defaults) = Some ?result"
    by (simp add: Merge_def)
  have b: "ImageConfig.BaseImage ?result =
         (case ImageConfig.BaseImage ic of
            Some b \<Rightarrow> Some b
          | None \<Rightarrow> ImageConfig.BaseImage defaults)"
    by (simp add: Merge_def split: option.splits)
  have v: "ImageConfig.Values ?result =
      mergeInto
        (fold (\<lambda>kv result. AList.update (fst kv) (deepCopyValue (snd kv)) result)
           (ImageConfig.Values defaults) [])
        (ImageConfig.Values ic)"
    by (simp add: Merge_def)
  show ?thesis
    using r b mergeInto_lookup
    apply (intro exI [of _ ?result] conjI allI impI)
       apply assumption
      apply assumption
    apply (simp only: v mergeInto_lookup [OF assms(1)] map_of_copy [OF assms(2)])
    apply (simp only: mergeInto_lookup)
    done
qed

lemma deepCopy_id:
  assumes "wf_value (VMap (ImageConfig.Values c))"
  shows "deepCopy (Some c) = Some c"
proof -
  have "map (\<lambda>kv. (fst kv, deepCopyValue (snd kv))) (ImageConfig.Values c)
      = map (\<lambda>kv. kv) (ImageConfig.Values c)"
    using assms by (intro map_cong) (auto simp: deepCopyValue_id)
  then show ?thesis
    using assms by (simp add: deepCopy_def fold_update_copy split: option.splits)
qed

text \<open>
  C6, as the code has it. With the defaults absent \<^verbatim>\<open>Merge\<close> returns the deep copy of the
  overlay, with the overlay absent the deep copy of the defaults, and the deep copy of
  a configuration is equal to it; with both absent it returns the absent (nil)
  configuration.
\<close>

theorem merge_absent_operand:
  assumes "wf_value (VMap (ImageConfig.Values x))"
  shows "Merge (Some x) None = deepCopy (Some x)
       \<and> Merge None (Some x) = deepCopy (Some x)
       \<and> deepCopy (Some x) = Some x
       \<and> Merge None None = None"
  using deepCopy_id [OF assms] by (simp add: Merge_def deepCopy_def)

text \<open>
  C6, as stated, fails when both are absent: the result is not an empty configuration.
\<close>

theorem merge_absent_absent_counterexample: "Merge None None \<noteq> Some \<lparr>ImageConfig.BaseImage = None, ImageConfig.Values = []\<rparr>"
  by (simp add: Merge_def deepCopy_def)


theorem merge_absent_operand_witness:
  "wf_value (VMap [(''key'', VString ''value'')])
   \<and> Merge (Some \<lparr>ImageConfig.BaseImage = Some \<lparr>Name = ''ubuntu'', Source = []\<rparr>,
                   ImageConfig.Values = [(''key'', VString ''value'')]\<rparr>) None
       = Some \<lparr>ImageConfig.BaseImage = Some \<lparr>Name = ''ubuntu'', Source = []\<rparr>,
               ImageConfig.Values = [(''key'', VString ''value'')]\<rparr>
   \<and> Merge None (Some \<lparr>ImageConfig.BaseImage = Some \<lparr>Name = ''ubuntu'', Source = []\<rparr>,
                   ImageConfig.Values = [(''key'', VString ''value'')]\<rparr>)
       = Some \<lparr>ImageConfig.BaseImage = Some \<lparr>Name = ''ubuntu'', Source = []\<rparr>,
               ImageConfig.Values = [(''key'', VString ''value'')]\<rparr>"
proof -
  let ?x = "\<lparr>ImageConfig.BaseImage = Some \<lparr>Name = ''ubuntu'', Source = []\<rparr>,
             ImageConfig.Values = [(''key'', VString ''value'')]\<rparr>"
  have wf: "wf_value (VMap (ImageConfig.Values ?x))" by simp
  from merge_absent_operand [OF wf] wf show ?thesis by simp
qed

theorem merge_overlay_over_defaults_witness:
  "\<exists>result.
     Merge (Some \<lparr>ImageConfig.BaseImage = Some \<lparr>Name = ''ubuntu'', Source = ''docker.io''\<rparr>,
                  ImageConfig.Values =
                    [(''nested'', VMap [(''a'', VInt 1), (''b'', VInt 2)])]\<rparr>)
           (Some \<lparr>ImageConfig.BaseImage = Some \<lparr>Name = ''alpine'', Source = ''default.io''\<rparr>,
                  ImageConfig.Values =
                    [(''nested'', VMap [(''a'', VInt 0), (''c'', VInt 3)])]\<rparr>) = Some result
     \<and> ImageConfig.BaseImage result = Some \<lparr>Name = ''ubuntu'', Source = ''docker.io''\<rparr>
     \<and> map_of (ImageConfig.Values result) ''nested''
         = Some (VMap [(''a'', VInt 1), (''c'', VInt 3), (''b'', VInt 2)])"
proof -
  let ?ic = "\<lparr>ImageConfig.BaseImage = Some \<lparr>Name = ''ubuntu'', Source = ''docker.io''\<rparr>,
              ImageConfig.Values = [(''nested'', VMap [(''a'', VInt 1), (''b'', VInt 2)])]\<rparr>"
  let ?df = "\<lparr>ImageConfig.BaseImage = Some \<lparr>Name = ''alpine'', Source = ''default.io''\<rparr>,
              ImageConfig.Values = [(''nested'', VMap [(''a'', VInt 0), (''c'', VInt 3)])]\<rparr>"
  have d1: "distinct (map fst (ImageConfig.Values ?ic))" by simp
  have d2: "distinct (map fst (ImageConfig.Values ?df))" by simp
  from merge_overlay_over_defaults [OF d1 d2] obtain result where
    r: "Merge (Some ?ic) (Some ?df) = Some result"
    and b: "ImageConfig.BaseImage result =
         (case ImageConfig.BaseImage ?ic of
            Some b \<Rightarrow> Some b
          | None \<Rightarrow> ImageConfig.BaseImage ?df)"
    and v: "\<forall>k. map_of (ImageConfig.Values result) k =
          (case map_of (ImageConfig.Values ?ic) k of
             None \<Rightarrow> map_option deepCopyValue (map_of (ImageConfig.Values ?df) k)
           | Some srcVal \<Rightarrow>
               (case map_option deepCopyValue (map_of (ImageConfig.Values ?df) k) of
                  Some (VMap destMap) \<Rightarrow>
                    (case srcVal of
                       VMap srcMap \<Rightarrow> Some (VMap (mergeInto destMap srcMap))
                     | _ \<Rightarrow> Some (deepCopyValue srcVal))
                | _ \<Rightarrow> Some (deepCopyValue srcVal)))"
    by blast
  from v have "map_of (ImageConfig.Values result) ''nested''
      = Some (VMap [(''a'', VInt 1), (''c'', VInt 3), (''b'', VInt 2)])"
    by simp
  with r b show ?thesis
    by simp
qed

section \<open>Origin resolution\<close>

lemma fromImage_descriptor:
  "fromImage sprintV d (VBaseImage b) = Some (emitFrom d (Name b) (Source b))"
  by (subst fromImage.simps) simp

lemma fromImage_literal:
  "Data.Values d n = None \<Longrightarrow> fromImage sprintV d (VString n) = Some (emitFrom d n [])"
  by (subst fromImage.simps) simp

lemma fromImage_key:
  "Data.Values d k = Some v \<Longrightarrow> fromImage sprintV d (VString k) = fromImage sprintV d v"
  by (subst fromImage.simps) simp

lemma fromImage_map:
  "fromImage sprintV d (VMap m) =
     Some (emitFrom d (stringField m ''name'') (stringField m ''source''))"
  by (subst fromImage.simps) simp

lemma from_image_eq: "from_image sprintV d arg = fromImage sprintV d arg"
  by (cases arg) (simp_all add: from_image_def fromImage_key split: option.splits)

text \<open>
  A render: the template engine calls \<^verbatim>\<open>from_image\<close> once per occurrence in the
  template, in order, on the one \<^verbatim>\<open>*Data\<close> of the render.
\<close>

fun resolveAll ::
  "(gvalue \<Rightarrow> string) \<Rightarrow> Data \<Rightarrow> gvalue list \<Rightarrow> (string list \<times> Data) option" where
  "resolveAll sprintV d [] = Some ([], d)"
| "resolveAll sprintV d (ref # refs) =
    (case from_image sprintV d ref of
       None \<Rightarrow> None
     | Some (txt, d') \<Rightarrow>
         (case resolveAll sprintV d' refs of
            None \<Rightarrow> None
          | Some (txts, d'') \<Rightarrow> Some (txt # txts, d'')))"

lemma emitFrom_flag_set:
  "rootPathIncluded d \<Longrightarrow> src \<noteq> ''dockerhub'' \<Longrightarrow>
   emitFrom d n src = (''FROM ${REGISTRY}/'' @ n, d)"
  by (simp add: emitFrom_def)

lemma emitFrom_first:
  "\<not> rootPathIncluded d \<Longrightarrow> src \<noteq> ''dockerhub'' \<Longrightarrow>
   Data.Values d ''registry'' = Some (VString r) \<Longrightarrow>
   emitFrom d n src =
     (''ARG REGISTRY='' @ r @ [CHR 0x0A] @ ''FROM ${REGISTRY}/'' @ n, d\<lparr>rootPathIncluded := True\<rparr>)"
  by (simp add: emitFrom_def)

lemma emitFrom_absent:
  "\<not> rootPathIncluded d \<Longrightarrow> src \<noteq> ''dockerhub'' \<Longrightarrow>
   Data.Values d ''registry'' = None \<Longrightarrow>
   emitFrom d n src =
     (''# ERROR: registry not set in config'' @ [CHR 0x0A] @ ''FROM ${REGISTRY}/'' @ n, d)"
  by (simp add: emitFrom_def)

lemma emitFrom_not_string:
  "\<not> rootPathIncluded d \<Longrightarrow> src \<noteq> ''dockerhub'' \<Longrightarrow>
   Data.Values d ''registry'' = Some v \<Longrightarrow> \<forall>s. v \<noteq> VString s \<Longrightarrow>
   emitFrom d n src =
     (''# ERROR: registry is not a string'' @ [CHR 0x0A] @ ''FROM ${REGISTRY}/'' @ n, d)"
  by (cases v) (simp_all add: emitFrom_def)

lemma resolveAll_flag_set:
  "rootPathIncluded d \<Longrightarrow> \<forall>b \<in> set bs. Source b \<noteq> ''dockerhub'' \<Longrightarrow>
   resolveAll sprintV d (map VBaseImage bs) =
     Some (map (\<lambda>b. ''FROM ${REGISTRY}/'' @ Name b) bs, d)"
  by (induction bs) (simp_all add: from_image_eq fromImage_descriptor emitFrom_flag_set)

text \<open>
  C7. A descriptor whose source is \<^verbatim>\<open>dockerhub\<close> resolves to exactly \<^verbatim>\<open>FROM <name>\<close>,
  whatever the context holds and whatever its flag is, and the context is returned as
  it was. This holds for a \<^verbatim>\<open>*config.BaseImage\<close>, for the same descriptor given as
  a map, and through the template function.
\<close>

theorem fromImage_dockerhub:
  "fromImage sprintV d (VBaseImage \<lparr>Name = n, Source = ''dockerhub''\<rparr>) = Some (''FROM '' @ n, d)
   \<and> from_image sprintV d (VBaseImage \<lparr>Name = n, Source = ''dockerhub''\<rparr>) = Some (''FROM '' @ n, d)
   \<and> fromImage sprintV d (VMap [(''name'', VString n), (''source'', VString ''dockerhub'')])
       = Some (''FROM '' @ n, d)"
  by (simp add: from_image_eq fromImage_descriptor fromImage_map emitFrom_def stringField_def)

theorem fromImage_dockerhub_witness:
  "fromImage (\<lambda>v. []) \<lparr>Data.Values = Map.empty, rootPathIncluded = True, generationMessage = []\<rparr>
     (VBaseImage \<lparr>Name = ''ubuntu:20.04'', Source = ''dockerhub''\<rparr>)
   = Some (''FROM ubuntu:20.04'',
       \<lparr>Data.Values = Map.empty, rootPathIncluded = True, generationMessage = []\<rparr>)"
  using fromImage_dockerhub [of "\<lambda>v. []"
      "\<lparr>Data.Values = Map.empty, rootPathIncluded = True, generationMessage = []\<rparr>"
      "''ubuntu:20.04''"]
  by simp

text \<open>
  C4. In a context whose registry is the string \<open>r\<close> and whose flag is unset, a render
  that resolves the non-public descriptors \<open>b # bs\<close> in this order returns
  \<^verbatim>\<open>ARG REGISTRY=r\<close>, a newline and \<^verbatim>\<open>FROM ${REGISTRY}/<name>\<close> for the first one, sets
  the flag, and returns only \<^verbatim>\<open>FROM ${REGISTRY}/<name>\<close> for every later one.
\<close>

theorem registry_arg_emitted_once:
  assumes "Data.Values d ''registry'' = Some (VString r)"
    and "\<not> rootPathIncluded d"
    and "Source b \<noteq> ''dockerhub''"
    and "\<forall>b' \<in> set bs. Source b' \<noteq> ''dockerhub''"
  shows "resolveAll sprintV d (map VBaseImage (b # bs)) =
           Some ((''ARG REGISTRY='' @ r @ [CHR 0x0A] @ ''FROM ${REGISTRY}/'' @ Name b)
                   # map (\<lambda>b'. ''FROM ${REGISTRY}/'' @ Name b') bs,
                 d\<lparr>rootPathIncluded := True\<rparr>)"
proof -
  have first: "from_image sprintV d (VBaseImage b) =
      Some (''ARG REGISTRY='' @ r @ [CHR 0x0A] @ ''FROM ${REGISTRY}/'' @ Name b,
            d\<lparr>rootPathIncluded := True\<rparr>)"
    using assms(1-3) by (simp add: from_image_eq fromImage_descriptor emitFrom_first)
  have rest: "resolveAll sprintV (d\<lparr>rootPathIncluded := True\<rparr>) (map VBaseImage bs) =
      Some (map (\<lambda>b'. ''FROM ${REGISTRY}/'' @ Name b') bs, d\<lparr>rootPathIncluded := True\<rparr>)"
    using assms(4) by (intro resolveAll_flag_set) simp_all
  show ?thesis
    using first rest by simp
qed

theorem registry_arg_emitted_once_witness:
  "resolveAll (\<lambda>v. [])
     \<lparr>Data.Values = [''registry'' \<mapsto> VString ''my-registry.io''], rootPathIncluded = False,
      generationMessage = []\<rparr>
     [VBaseImage \<lparr>Name = ''myimage'', Source = ''custom''\<rparr>,
      VBaseImage \<lparr>Name = ''anotherimage'', Source = ''custom''\<rparr>]
   = Some ([''ARG REGISTRY=my-registry.io'' @ [CHR 0x0A] @ ''FROM ${REGISTRY}/myimage'',
            ''FROM ${REGISTRY}/anotherimage''],
       \<lparr>Data.Values = [''registry'' \<mapsto> VString ''my-registry.io''], rootPathIncluded = True,
        generationMessage = []\<rparr>)"
  using registry_arg_emitted_once [of
      "\<lparr>Data.Values = [''registry'' \<mapsto> VString ''my-registry.io''], rootPathIncluded = False,
        generationMessage = []\<rparr>"
      "''my-registry.io''" "\<lparr>Name = ''myimage'', Source = ''custom''\<rparr>"
      "[\<lparr>Name = ''anotherimage'', Source = ''custom''\<rparr>]" "\<lambda>v. []"]
  by simp

subsection \<open>The flag and the registry value\<close>

lemma flagConsistent_unset:
  "flagConsistent d \<Longrightarrow> \<forall>r. Data.Values d ''registry'' \<noteq> Some (VString r) \<Longrightarrow>
   \<not> rootPathIncluded d"
  by (auto simp: flagConsistent_def split: option.splits gvalue.splits)

lemma NewData_flagConsistent: "flagConsistent (NewData mergedConfig imageName)"
  by (simp add: NewData_def flagConsistent_def Let_def split: option.splits gvalue.splits)

lemma emitFrom_values: "Data.Values (snd (emitFrom d n s)) = Data.Values d"
  by (simp add: emitFrom_def Let_def split: option.splits gvalue.splits)

lemma emitFrom_context:
  "snd (emitFrom d n s) = d
   \<or> (\<exists>r. Data.Values d ''registry'' = Some (VString r)
          \<and> snd (emitFrom d n s) = d\<lparr>rootPathIncluded := True\<rparr>)"
  by (simp add: emitFrom_def Let_def split: option.splits gvalue.splits)

lemma emitFrom_flagConsistent:
  assumes "flagConsistent d"
  shows "flagConsistent (snd (emitFrom d n s))"
proof -
  from emitFrom_context [of d n s] show ?thesis
  proof
    assume "snd (emitFrom d n s) = d"
    with assms show ?thesis by simp
  next
    assume "\<exists>r. Data.Values d ''registry'' = Some (VString r)
          \<and> snd (emitFrom d n s) = d\<lparr>rootPathIncluded := True\<rparr>"
    then show ?thesis
      by (auto simp: flagConsistent_def)
  qed
qed

lemma fromImage_preserves:
  assumes "fromImage sprintV d v = Some res"
  shows "Data.Values (snd res) = Data.Values d
         \<and> (flagConsistent d \<longrightarrow> flagConsistent (snd res))"
proof (rule fromImage.raw_induct[OF _ assms])
  fix f :: "(gvalue \<Rightarrow> string) \<Rightarrow> Data \<Rightarrow> gvalue \<Rightarrow> (string \<times> Data) option"
    and sprintV d baseImage res
  assume IH: "\<And>sprintV d baseImage res. f sprintV d baseImage = Some res \<Longrightarrow>
      Data.Values (snd res) = Data.Values d
      \<and> (flagConsistent d \<longrightarrow> flagConsistent (snd res))"
    and body: "(case baseImage of
       VString v \<Rightarrow>
         (case Data.Values d v of
            Some val \<Rightarrow> f sprintV d val
          | None \<Rightarrow> Some (emitFrom d v []))
     | VBaseImage v \<Rightarrow> Some (emitFrom d (Name v) (Source v))
     | VMap v \<Rightarrow> Some (emitFrom d (stringField v ''name'') (stringField v ''source''))
     | _ \<Rightarrow> Some (emitFrom d (sprintV baseImage) [])) = Some res"
  show "Data.Values (snd res) = Data.Values d
        \<and> (flagConsistent d \<longrightarrow> flagConsistent (snd res))"
    using body IH
    by (auto split: gvalue.splits option.splits simp: emitFrom_values emitFrom_flagConsistent)
qed

text \<open>
  C8. In a context of a render (\<open>flagConsistent\<close>: built by \<^verbatim>\<open>NewData\<close>, changed only by
  \<^verbatim>\<open>fromImage\<close>), resolving a non-public descriptor returns a text and the context
  unchanged: when \<^verbatim>\<open>registry\<close> is absent, the line
  \<^verbatim>\<open># ERROR: registry not set in config\<close> followed by \<^verbatim>\<open>FROM ${REGISTRY}/<name>\<close>; when
  it is present and not a string, the line \<^verbatim>\<open># ERROR: registry is not a string\<close>
  followed by the same origin line.
\<close>

theorem registry_errors_inline:
  assumes "flagConsistent d" and "Source b \<noteq> ''dockerhub''"
  shows "(Data.Values d ''registry'' = None \<longrightarrow>
            fromImage sprintV d (VBaseImage b) =
              Some (''# ERROR: registry not set in config'' @ [CHR 0x0A] @
                    ''FROM ${REGISTRY}/'' @ Name b, d))
       \<and> (\<forall>v. Data.Values d ''registry'' = Some v \<and> (\<forall>s. v \<noteq> VString s) \<longrightarrow>
            fromImage sprintV d (VBaseImage b) =
              Some (''# ERROR: registry is not a string'' @ [CHR 0x0A] @
                    ''FROM ${REGISTRY}/'' @ Name b, d))"
proof (intro conjI impI allI)
  assume absent: "Data.Values d ''registry'' = None"
  then have "\<not> rootPathIncluded d"
    using assms(1) by (simp add: flagConsistent_def)
  then show "fromImage sprintV d (VBaseImage b) =
      Some (''# ERROR: registry not set in config'' @ [CHR 0x0A] @
            ''FROM ${REGISTRY}/'' @ Name b, d)"
    using absent assms(2) by (simp add: fromImage_descriptor emitFrom_absent)
next
  fix v
  assume other: "Data.Values d ''registry'' = Some v \<and> (\<forall>s. v \<noteq> VString s)"
  then have "\<not> rootPathIncluded d"
    using assms(1) by (intro flagConsistent_unset) auto
  then show "fromImage sprintV d (VBaseImage b) =
      Some (''# ERROR: registry is not a string'' @ [CHR 0x0A] @
            ''FROM ${REGISTRY}/'' @ Name b, d)"
    using other assms(2) by (simp add: fromImage_descriptor emitFrom_not_string)
qed

theorem registry_errors_inline_witness:
  "fromImage (\<lambda>v. [])
     (NewData \<lparr>ImageConfig.BaseImage = None, ImageConfig.Values = []\<rparr> ''app'')
     (VBaseImage \<lparr>Name = ''myimage'', Source = ''custom''\<rparr>)
   = Some (''# ERROR: registry not set in config'' @ [CHR 0x0A] @ ''FROM ${REGISTRY}/myimage'',
           NewData \<lparr>ImageConfig.BaseImage = None, ImageConfig.Values = []\<rparr> ''app'')
   \<and> fromImage (\<lambda>v. [])
     (NewData \<lparr>ImageConfig.BaseImage = None, ImageConfig.Values = [(''registry'', VInt 12345)]\<rparr>
        ''app'')
     (VBaseImage \<lparr>Name = ''myimage'', Source = ''custom''\<rparr>)
   = Some (''# ERROR: registry is not a string'' @ [CHR 0x0A] @ ''FROM ${REGISTRY}/myimage'',
           NewData \<lparr>ImageConfig.BaseImage = None, ImageConfig.Values = [(''registry'', VInt 12345)]\<rparr>
             ''app'')"
proof -
  let ?b = "\<lparr>Name = ''myimage'', Source = ''custom''\<rparr>"
  let ?d1 = "NewData \<lparr>ImageConfig.BaseImage = None, ImageConfig.Values = []\<rparr> ''app''"
  let ?d2 = "NewData \<lparr>ImageConfig.BaseImage = None,
                       ImageConfig.Values = [(''registry'', VInt 12345)]\<rparr> ''app''"
  have src: "Source ?b \<noteq> ''dockerhub''" by simp
  have v1: "Data.Values ?d1 ''registry'' = None"
    by (simp add: NewData_def)
  have v2: "Data.Values ?d2 ''registry'' = Some (VInt 12345) \<and> (\<forall>s. VInt 12345 \<noteq> VString s)"
    by (simp add: NewData_def)
  show ?thesis
    using registry_errors_inline [OF NewData_flagConsistent src, of _ "''app''" "\<lambda>v. []"] v1 v2
    by simp
qed

text \<open>
  C10. When a non-public resolution takes a registry error branch (flag unset, and the
  registry absent or not a string), the context is returned unchanged, so its flag is
  still unset; and a later non-public resolution in that context, once \<^verbatim>\<open>registry\<close>
  holds a string \<open>r\<close>, reads it again and returns the \<^verbatim>\<open>ARG REGISTRY=r\<close> line before the
  origin line.
\<close>

theorem registry_error_keeps_flag_unset:
  assumes "Source b \<noteq> ''dockerhub''"
    and "\<not> rootPathIncluded d"
    and "\<forall>r. Data.Values d ''registry'' \<noteq> Some (VString r)"
  shows "\<exists>txt d'. fromImage sprintV d (VBaseImage b) = Some (txt, d')
           \<and> txt \<in> {''# ERROR: registry not set in config'' @ [CHR 0x0A] @
                        ''FROM ${REGISTRY}/'' @ Name b,
                      ''# ERROR: registry is not a string'' @ [CHR 0x0A] @
                        ''FROM ${REGISTRY}/'' @ Name b}
           \<and> d' = d \<and> \<not> rootPathIncluded d'
           \<and> (\<forall>r b'. Source b' \<noteq> ''dockerhub'' \<longrightarrow>
                 fromImage sprintV (d'\<lparr>Data.Values := (Data.Values d')(''registry'' \<mapsto> VString r)\<rparr>)
                   (VBaseImage b')
                 = Some (''ARG REGISTRY='' @ r @ [CHR 0x0A] @ ''FROM ${REGISTRY}/'' @ Name b',
                         d'\<lparr>Data.Values := (Data.Values d')(''registry'' \<mapsto> VString r),
                            rootPathIncluded := True\<rparr>))"
proof -
  have later: "fromImage sprintV (d\<lparr>Data.Values := (Data.Values d)(''registry'' \<mapsto> VString r)\<rparr>)
                   (VBaseImage b')
                 = Some (''ARG REGISTRY='' @ r @ [CHR 0x0A] @ ''FROM ${REGISTRY}/'' @ Name b',
                         d\<lparr>Data.Values := (Data.Values d)(''registry'' \<mapsto> VString r),
                            rootPathIncluded := True\<rparr>)"
    if "Source b' \<noteq> ''dockerhub''" for r b'
    using that assms(2) by (simp add: fromImage_descriptor emitFrom_first)
  show ?thesis
  proof (cases "Data.Values d ''registry''")
    case None
    then have "fromImage sprintV d (VBaseImage b) =
        Some (''# ERROR: registry not set in config'' @ [CHR 0x0A] @
              ''FROM ${REGISTRY}/'' @ Name b, d)"
      using assms(1,2) by (simp add: fromImage_descriptor emitFrom_absent)
    then show ?thesis
      using assms(2) later by simp
  next
    case (Some v)
    then have "\<forall>s. v \<noteq> VString s"
      using assms(3) by auto
    then have "fromImage sprintV d (VBaseImage b) =
        Some (''# ERROR: registry is not a string'' @ [CHR 0x0A] @
              ''FROM ${REGISTRY}/'' @ Name b, d)"
      using Some assms(1,2) by (simp add: fromImage_descriptor emitFrom_not_string)
    then show ?thesis
      using assms(2) later by simp
  qed
qed

theorem registry_error_keeps_flag_unset_witness:
  "\<exists>txt d'. fromImage (\<lambda>v. [])
       \<lparr>Data.Values = [''registry'' \<mapsto> VInt 12345], rootPathIncluded = False,
        generationMessage = []\<rparr>
       (VBaseImage \<lparr>Name = ''myimage'', Source = ''custom''\<rparr>) = Some (txt, d')
     \<and> \<not> rootPathIncluded d'
     \<and> fromImage (\<lambda>v. [])
         (d'\<lparr>Data.Values := (Data.Values d')(''registry'' \<mapsto> VString ''test.io'')\<rparr>)
         (VBaseImage \<lparr>Name = ''myimage'', Source = ''custom''\<rparr>)
       = Some (''ARG REGISTRY=test.io'' @ [CHR 0x0A] @ ''FROM ${REGISTRY}/myimage'',
               d'\<lparr>Data.Values := (Data.Values d')(''registry'' \<mapsto> VString ''test.io''),
                  rootPathIncluded := True\<rparr>)"
proof -
  let ?d = "\<lparr>Data.Values = [''registry'' \<mapsto> VInt 12345], rootPathIncluded = False,
             generationMessage = []\<rparr>"
  let ?b = "\<lparr>Name = ''myimage'', Source = ''custom''\<rparr>"
  have h1: "Source ?b \<noteq> ''dockerhub''" by simp
  have h2: "\<not> rootPathIncluded ?d" by simp
  have h3: "\<forall>r. Data.Values ?d ''registry'' \<noteq> Some (VString r)" by simp
  obtain out d' where
    r: "fromImage (\<lambda>v. []) ?d (VBaseImage ?b) = Some (out, d')" "\<not> rootPathIncluded d'"
      "\<forall>r b'. Source b' \<noteq> ''dockerhub'' \<longrightarrow>
         fromImage (\<lambda>v. []) (d'\<lparr>Data.Values := (Data.Values d')(''registry'' \<mapsto> VString r)\<rparr>)
           (VBaseImage b')
         = Some (''ARG REGISTRY='' @ r @ [CHR 0x0A] @ ''FROM ${REGISTRY}/'' @ Name b',
                 d'\<lparr>Data.Values := (Data.Values d')(''registry'' \<mapsto> VString r),
                    rootPathIncluded := True\<rparr>)"
    using registry_error_keeps_flag_unset [OF h1 h2 h3, of "\<lambda>v. []"] by blast
  from r(3) have "fromImage (\<lambda>v. [])
         (d'\<lparr>Data.Values := (Data.Values d')(''registry'' \<mapsto> VString ''test.io'')\<rparr>)
         (VBaseImage ?b)
       = Some (''ARG REGISTRY='' @ ''test.io'' @ [CHR 0x0A] @ ''FROM ${REGISTRY}/'' @ Name ?b,
               d'\<lparr>Data.Values := (Data.Values d')(''registry'' \<mapsto> VString ''test.io''),
                  rootPathIncluded := True\<rparr>)"
    using h1 by blast
  with r(1,2) show ?thesis
    by auto
qed

subsection \<open>Chains of keys\<close>

lemma fromImage_terminal:
  "\<not> isKey d t \<Longrightarrow> fromImage sprintV d t = Some (terminalOrigin sprintV d t)"
  by (subst fromImage.simps) (simp add: isKey_def terminalOrigin_def split: gvalue.splits)

lemma finite_keyChain:
  assumes "finite (dom (Data.Values d))"
  shows "finite (keyChain d)"
proof -
  have "keyChain d \<subseteq>
      (\<lambda>k. (k, case Data.Values d k of Some (VString k') \<Rightarrow> k' | _ \<Rightarrow> [])) ` dom (Data.Values d)"
    by (auto simp: keyChain_def image_iff dom_def)
  then show ?thesis
    using assms finite_surj by blast
qed

lemma fromImage_key_chain:
  assumes "wf ((keyChain d)\<inverse>)"
  shows "\<exists>t. resolvesTo d (VString k) t \<and> \<not> isKey d t
             \<and> fromImage sprintV d (VString k) = Some (terminalOrigin sprintV d t)"
  using assms
proof (induction k rule: wf_induct_rule)
  case (less k)
  show ?case
  proof (cases "Data.Values d k")
    case None
    then have "\<not> isKey d (VString k)" by (simp add: isKey_def)
    then show ?thesis
      using fromImage_terminal resolvesTo.stop by blast
  next
    case (Some v)
    show ?thesis
    proof (cases "isKey d v")
      case False
      then show ?thesis
        using Some fromImage_terminal [OF False, of sprintV]
          resolvesTo.follow [OF Some resolvesTo.stop [OF False]]
        by (auto simp: fromImage_key)
    next
      case True
      then obtain k' where v: "v = VString k'"
        by (auto simp: isKey_def split: gvalue.splits)
      then have "(k', k) \<in> (keyChain d)\<inverse>"
        using Some by (simp add: keyChain_def)
      from less(1) [OF this] obtain t where
        "resolvesTo d (VString k') t" "\<not> isKey d t"
        "fromImage sprintV d (VString k') = Some (terminalOrigin sprintV d t)"
        by blast
      then show ?thesis
        using Some v resolvesTo.follow [OF Some] by (auto simp: fromImage_key)
    qed
  qed
qed

text \<open>A key whose value is the key itself: the call never returns.\<close>

lemma fromImage_self_reference:
  assumes self: "Data.Values d k = Some (VString k)"
  shows "fromImage sprintV d (VString k) = None"
proof (cases "fromImage sprintV d (VString k)")
  case None
  then show ?thesis .
next
  case (Some res)
  have "\<not> (d = d \<and> VString k = VString k)"
  proof (rule fromImage.raw_induct
      [where P = "\<lambda>s d' v res. \<not> (d' = d \<and> v = VString k)", OF _ Some])
    fix f :: "(gvalue \<Rightarrow> string) \<Rightarrow> Data \<Rightarrow> gvalue \<Rightarrow> (string \<times> Data) option"
      and s d' baseImage res
    assume IH: "\<And>s d' baseImage res. f s d' baseImage = Some res \<Longrightarrow>
        \<not> (d' = d \<and> baseImage = VString k)"
      and body: "(case baseImage of
         VString v \<Rightarrow>
           (case Data.Values d' v of
              Some val \<Rightarrow> f s d' val
            | None \<Rightarrow> Some (emitFrom d' v []))
       | VBaseImage v \<Rightarrow> Some (emitFrom d' (Name v) (Source v))
       | VMap v \<Rightarrow> Some (emitFrom d' (stringField v ''name'') (stringField v ''source''))
       | _ \<Rightarrow> Some (emitFrom d' (s baseImage) [])) = Some res"
    show "\<not> (d' = d \<and> baseImage = VString k)"
    proof
      assume "d' = d \<and> baseImage = VString k"
      with body self have "f s d (VString k) = Some res" by simp
      from IH [OF this] show False by simp
    qed
  qed
  then show ?thesis by simp
qed

text \<open>
  C9. In a context with finitely many values whose key chains are acyclic, resolving a
  string reference returns: following the keys from it ends at a value \<open>t\<close> that is not
  a key (a descriptor, a literal name or another value), and the text returned, by
  \<^verbatim>\<open>fromImage\<close> and by the template function alike, is the origin text of \<open>t\<close>.
\<close>

theorem fromImage_follows_chain:
  assumes "finite (dom (Data.Values d))" and "acyclic (keyChain d)"
  shows "\<exists>t. resolvesTo d (VString k) t \<and> \<not> isKey d t
           \<and> fromImage sprintV d (VString k) = Some (terminalOrigin sprintV d t)
           \<and> from_image sprintV d (VString k) = Some (terminalOrigin sprintV d t)"
proof -
  have "wf ((keyChain d)\<inverse>)"
    using assms finite_keyChain finite_acyclic_wf_converse by blast
  from fromImage_key_chain [OF this, of k sprintV] show ?thesis
    by (auto simp: from_image_eq)
qed

theorem fromImage_follows_chain_witness:
  "\<exists>t. resolvesTo
       \<lparr>Data.Values = [''level1'' \<mapsto> VString ''level2'',
                       ''level2'' \<mapsto> VBaseImage \<lparr>Name = ''alpine'', Source = ''dockerhub''\<rparr>],
        rootPathIncluded = False, generationMessage = []\<rparr> (VString ''level1'') t
     \<and> fromImage (\<lambda>v. [])
       \<lparr>Data.Values = [''level1'' \<mapsto> VString ''level2'',
                       ''level2'' \<mapsto> VBaseImage \<lparr>Name = ''alpine'', Source = ''dockerhub''\<rparr>],
        rootPathIncluded = False, generationMessage = []\<rparr> (VString ''level1'')
       = Some (terminalOrigin (\<lambda>v. [])
           \<lparr>Data.Values = [''level1'' \<mapsto> VString ''level2'',
                       ''level2'' \<mapsto> VBaseImage \<lparr>Name = ''alpine'', Source = ''dockerhub''\<rparr>],
            rootPathIncluded = False, generationMessage = []\<rparr> t)"
proof -
  let ?d = "\<lparr>Data.Values = [''level1'' \<mapsto> VString ''level2'',
                       ''level2'' \<mapsto> VBaseImage \<lparr>Name = ''alpine'', Source = ''dockerhub''\<rparr>],
        rootPathIncluded = False, generationMessage = []\<rparr>"
  have fin: "finite (dom (Data.Values ?d))" by simp
  have "keyChain ?d = {(''level1'', ''level2'')}"
    by (auto simp: keyChain_def split: if_splits)
  then have acyc: "acyclic (keyChain ?d)"
    by (simp add: acyclic_insert wf_acyclic)
  from fromImage_follows_chain [OF fin acyc, of "''level1''" "\<lambda>v. []"] show ?thesis
    by blast
qed

section \<open>The build pipeline (package workflow, workflow.go)\<close>

subsection \<open>Jobs and the depth-first sort\<close>

text \<open>
  The struct \<^verbatim>\<open>Job\<close>. A failure of \<^verbatim>\<open>topologicalSort\<close> is the error it returns or
  the run-time panic of \<^verbatim>\<open>job.Needs\<close> on the nil pointer that \<^verbatim>\<open>jobMap[jobID]\<close> gives for
  an unknown identifier. The maps \<^verbatim>\<open>visited\<close> and \<^verbatim>\<open>visiting\<close> are of type
  \<^verbatim>\<open>map[string]bool\<close>, read only by indexing: a missing key reads as false.
\<close>

record Job =
  ID :: string
  Name :: string
  ImageName :: string
  Version :: string
  DockerfilePath :: string
  Needs :: "string list"

datatype error = CircularDependency string | NilPointerDereference

record sortState =
  sortedJobs :: "Job list"
  visited :: "string \<Rightarrow> bool"
  visiting :: "string \<Rightarrow> bool"

text \<open>\<^verbatim>\<open>jobMap[jobs[i].ID] = &jobs[i]\<close> for every index in order: the last job wins.\<close>

definition jobMap :: "Job list \<Rightarrow> (string \<rightharpoonup> Job)" where
  "jobMap jobs = fold (\<lambda>job m. m(ID job \<mapsto> job)) jobs Map.empty"

text \<open>
  The closure \<^verbatim>\<open>visit\<close> with the variables it captures as state, and its loop over
  \<^verbatim>\<open>job.Needs\<close>. On an error the state is dropped, as \<^verbatim>\<open>topologicalSort\<close> returns
  \<^verbatim>\<open>nil, err\<close>.
\<close>

function visit :: "Job list \<Rightarrow> string \<Rightarrow> sortState \<Rightarrow> error + sortState"
  and visitNeeds :: "Job list \<Rightarrow> string list \<Rightarrow> sortState \<Rightarrow> error + sortState" where
  "visit jobs jobID s =
    (if visited s jobID then Inr s
     else if visiting s jobID then Inl (CircularDependency jobID)
     else
       (case jobMap jobs jobID of
          None \<Rightarrow> Inl NilPointerDereference
        | Some job \<Rightarrow>
            (case visitNeeds jobs (Needs job) (s\<lparr>visiting := (visiting s)(jobID := True)\<rparr>) of
               Inl err \<Rightarrow> Inl err
             | Inr s' \<Rightarrow>
                 Inr (s'\<lparr>visiting := (visiting s')(jobID := False),
                         visited := (visited s')(jobID := True),
                         sortedJobs := sortedJobs s' @ [job]\<rparr>))))"
| "visitNeeds jobs [] s = Inr s"
| "visitNeeds jobs (dep # deps) s =
    (case visit jobs dep s of
       Inl err \<Rightarrow> Inl err
     | Inr s' \<Rightarrow> visitNeeds jobs deps s')"
  by pat_completeness auto

text \<open>
  The recursion ends: every nested call has one more known identifier marked as
  visiting, and a call that returns leaves the marks as it found them.
\<close>

lemma jobMap_dom: "dom (jobMap jobs) = ID ` set jobs"
proof -
  have "dom (fold (\<lambda>job m. m(ID job \<mapsto> job)) jobs m0) = dom m0 \<union> ID ` set jobs" for m0
    by (induction jobs arbitrary: m0) auto
  then show ?thesis by (simp add: jobMap_def)
qed

lemma visiting_restored:
  "visit_visitNeeds_dom (Inl (jobs, jobID, s)) \<Longrightarrow> visit jobs jobID s = Inr s' \<Longrightarrow> visiting s' = visiting s"
  "visit_visitNeeds_dom (Inr (jobs, deps, s)) \<Longrightarrow> visitNeeds jobs deps s = Inr s' \<Longrightarrow> visiting s' = visiting s"
proof (induction jobs jobID s and jobs deps s arbitrary: s' and s' rule: visit_visitNeeds.pinduct)
  case (1 jobs jobID s)
  show ?case
  proof (cases "visited s jobID")
    case True
    with 1 show ?thesis by (simp add: visit.psimps)
  next
    case False
    with 1(1,3) have nv: "\<not> visiting s jobID"
      by (auto simp: visit.psimps split: if_splits)
    from 1(1,3) False nv obtain job s2 where
      job: "jobMap jobs jobID = Some job"
      and s2: "visitNeeds jobs (Needs job) (s\<lparr>visiting := (visiting s)(jobID := True)\<rparr>) = Inr s2"
      and s': "s' = s2\<lparr>visiting := (visiting s2)(jobID := False),
                         visited := (visited s2)(jobID := True),
                         sortedJobs := sortedJobs s2 @ [job]\<rparr>"
      by (auto simp: visit.psimps split: option.splits sum.splits)
    have "visiting s2 = visiting (s\<lparr>visiting := (visiting s)(jobID := True)\<rparr>)"
      by (rule 1(2) [OF False nv job s2])
    then show ?thesis
      using nv by (auto simp: s' fun_eq_iff)
  qed
next
  case (2 jobs s)
  then show ?case by (simp add: visitNeeds.psimps)
next
  case (3 jobs dep deps s)
  from 3(1,4) obtain s1 where
    s1: "visit jobs dep s = Inr s1" and rest: "visitNeeds jobs deps s1 = Inr s'"
    by (auto simp: visitNeeds.psimps split: sum.splits)
  from 3(2) [OF s1] 3(3) [OF s1 rest] show ?case
    by simp
qed

termination visit
proof (relation "inv_image (less_than <*lex*> less_than)
    (\<lambda>x. case x of
       Inl (jobs, jobID, s) \<Rightarrow> (card {i \<in> ID ` set jobs. \<not> visiting s i}, 0)
     | Inr (jobs, deps, s) \<Rightarrow> (card {i \<in> ID ` set jobs. \<not> visiting s i}, Suc (length deps)))",
    goal_cases)
  case 1
  show ?case
    by (rule wf_inv_image) (rule wf_lex_prod; rule wf_less_than)
next
  case (2 jobs jobID s job)
  then have "jobID \<in> ID ` set jobs"
    using jobMap_dom [of jobs] by (auto simp: dom_def)
  with 2 have "{i \<in> ID ` set jobs. \<not> ((visiting s)(jobID := True)) i}
      \<subset> {i \<in> ID ` set jobs. \<not> visiting s i}"
    by auto
  then have "card {i \<in> ID ` set jobs. \<not> ((visiting s)(jobID := True)) i}
      < card {i \<in> ID ` set jobs. \<not> visiting s i}"
    by (intro psubset_card_mono) auto
  then show ?case by simp
next
  case (3 jobs dep deps s)
  then show ?case by simp
next
  case (4 jobs dep deps s s')
  then show ?case
    using visiting_restored(1) by simp
qed

text \<open>The loop \<^verbatim>\<open>for _, job := range jobs\<close> of \<^verbatim>\<open>topologicalSort\<close>, and the function.\<close>

fun visitAll :: "Job list \<Rightarrow> Job list \<Rightarrow> sortState \<Rightarrow> error + sortState" where
  "visitAll jobs [] s = Inr s"
| "visitAll jobs (job # rest) s =
    (case visit jobs (ID job) s of
       Inl err \<Rightarrow> Inl err
     | Inr s' \<Rightarrow> visitAll jobs rest s')"

definition topologicalSort :: "Job list \<Rightarrow> error + Job list" where
  "topologicalSort jobs =
    (case visitAll jobs jobs
            \<lparr>sortedJobs = [], visited = (\<lambda>k. False), visiting = (\<lambda>k. False)\<rparr> of
       Inl err \<Rightarrow> Inl err
     | Inr s \<Rightarrow> Inr (sortedJobs s))"

text \<open>
  The dependency edges that a job list declares, from a job's identifier to each
  identifier in its \<^verbatim>\<open>Needs\<close>; and the job lists in which every need names a job.
\<close>

definition edges :: "Job list \<Rightarrow> (string \<times> string) set" where
  "edges jobs = {(ID j, d) | j d. j \<in> set jobs \<and> d \<in> set (Needs j)}"

definition needsKnown :: "Job list \<Rightarrow> bool" where
  "needsKnown jobs = (\<forall>j \<in> set jobs. \<forall>d \<in> set (Needs j). d \<in> ID ` set jobs)"

text \<open>
  The edges that the sort follows (through \<^verbatim>\<open>jobMap\<close>), and what holds of the state
  between calls: \<^verbatim>\<open>visited\<close> marks exactly the identifiers of the jobs emitted, no
  identifier is emitted twice, every job emitted is the one \<^verbatim>\<open>jobMap\<close> holds, and every need
  of a job is emitted before it.
\<close>

definition lookupEdges :: "Job list \<Rightarrow> (string \<times> string) set" where
  "lookupEdges jobs = {(x, d). \<exists>job. jobMap jobs x = Some job \<and> d \<in> set (Needs job)}"

definition sortedOK :: "Job list \<Rightarrow> sortState \<Rightarrow> bool" where
  "sortedOK jobs s =
    ((\<forall>x. visited s x = (x \<in> ID ` set (sortedJobs s)))
     \<and> distinct (map ID (sortedJobs s))
     \<and> (\<forall>j \<in> set (sortedJobs s). jobMap jobs (ID j) = Some j)
     \<and> (\<forall>i < length (sortedJobs s). \<forall>d \<in> set (Needs (sortedJobs s ! i)).
           d \<in> ID ` set (take i (sortedJobs s))))"

definition follows :: "Job list \<Rightarrow> sortState \<Rightarrow> sortState \<Rightarrow> bool" where
  "follows jobs s s' =
    (visiting s' = visiting s
     \<and> (\<forall>y. visited s y \<longrightarrow> visited s' y)
     \<and> (\<forall>y. visiting s y \<and> \<not> visited s y \<longrightarrow> \<not> visited s' y)
     \<and> (sortedOK jobs s \<longrightarrow> sortedOK jobs s'))"

definition initialState :: sortState where
  "initialState = \<lparr>sortedJobs = [], visited = (\<lambda>k. False), visiting = (\<lambda>k. False)\<rparr>"

text \<open>A job literal with the other fields left at their zero value, as the tests write it.\<close>

definition jobLiteral :: "string \<Rightarrow> string list \<Rightarrow> Job" where
  "jobLiteral jobID needs =
     \<lparr>ID = jobID, Name = [], ImageName = [], Version = [], DockerfilePath = [], Needs = needs\<rparr>"

subsection \<open>Patterns\<close>

text \<open>
  The four regular expressions of \<^verbatim>\<open>parseDockerfileDependencies\<close> are sequences of
  literals and of greedy repetitions of one character class, some of them capturing.
  \<open>matchItems\<close> matches such a sequence at the start of a text the way Go's
  \<^verbatim>\<open>regexp\<close> does (the match a backtracking search finds first): a repetition takes the
  longest run first and gives characters back one at a time. \<open>searchItems\<close> is the
  unanchored search, leftmost start first. The result is the list of the submatches
  \<^verbatim>\<open>match[1]\<close>, \<^verbatim>\<open>match[2]\<close>, in order. The class \<^verbatim>\<open>\s\<close> is \<^verbatim>\<open>[\t\n\f\r ]\<close>, and
  \<^verbatim>\<open>.\<close> is every character but the newline.
\<close>

datatype item = Lit string | Rep nat "char \<Rightarrow> bool" bool

fun firstMatch :: "(nat \<Rightarrow> 'a option) \<Rightarrow> nat \<Rightarrow> nat \<Rightarrow> 'a option" where
  "firstMatch f lo 0 = (if lo = 0 then f 0 else None)"
| "firstMatch f lo (Suc k) =
     (if Suc k < lo then None
      else (case f (Suc k) of Some r \<Rightarrow> Some r | None \<Rightarrow> firstMatch f lo k))"

primrec matchItems :: "item list \<Rightarrow> string \<Rightarrow> string list option" where
  "matchItems [] s = Some []"
| "matchItems (it # rest) s =
    (case it of
       Lit l \<Rightarrow> (if take (length l) s = l then matchItems rest (drop (length l) s) else None)
     | Rep lo cls cap \<Rightarrow>
         firstMatch
           (\<lambda>k. case matchItems rest (drop k s) of
                  None \<Rightarrow> None
                | Some groups \<Rightarrow> Some (if cap then take k s # groups else groups))
           lo (length (takeWhile cls s)))"

fun searchItems :: "item list \<Rightarrow> string \<Rightarrow> string list option" where
  "searchItems re [] = matchItems re []"
| "searchItems re (c # s) =
    (case matchItems re (c # s) of Some groups \<Rightarrow> Some groups | None \<Rightarrow> searchItems re s)"

definition isSpace :: "char \<Rightarrow> bool" where
  "isSpace c = (c = CHR 0x09 \<or> c = CHR 0x0A \<or> c = CHR 0x0C \<or> c = CHR 0x0D \<or> c = CHR '' '')"

definition fromPattern :: "item list" where
  "fromPattern =
    [Rep 0 isSpace False, Lit ''FROM'', Rep 1 isSpace False, Lit ''${REGISTRY}/'',
     Rep 1 (\<lambda>c. c \<noteq> CHR '':'' \<and> \<not> isSpace c) True, Lit '':'',
     Rep 1 (\<lambda>c. \<not> isSpace c) True]"

definition copyFromPattern :: "item list" where
  "copyFromPattern =
    [Rep 0 isSpace False, Lit ''COPY'', Rep 1 isSpace False,
     Rep 0 (\<lambda>c. c \<noteq> CHR 0x0A) False, Lit ''--from='', Rep 1 (\<lambda>c. \<not> isSpace c) True]"

definition stagePattern :: "item list" where
  "stagePattern =
    [Rep 0 isSpace False, Lit ''FROM'', Rep 1 isSpace False,
     Rep 0 (\<lambda>c. c \<noteq> CHR 0x0A) False, Rep 1 isSpace False, Lit ''AS'', Rep 1 isSpace False,
     Rep 1 (\<lambda>c. \<not> isSpace c) True]"

definition registryPattern :: "item list" where
  "registryPattern =
    [Lit ''${REGISTRY}/'', Rep 1 (\<lambda>c. c \<noteq> CHR '':'' \<and> \<not> isSpace c) True, Lit '':'',
     Rep 1 (\<lambda>c. \<not> isSpace c) True]"

fun splitLines :: "string \<Rightarrow> string list" where
  "splitLines [] = [[]]"
| "splitLines (c # cs) =
    (if c = CHR 0x0A then [] # splitLines cs
     else (case splitLines cs of l # ls \<Rightarrow> (c # l) # ls | [] \<Rightarrow> [[c]]))"

definition stageNamesOf :: "string list \<Rightarrow> string list" where
  "stageNamesOf lines =
    fold (\<lambda>line stageNames.
            case matchItems stagePattern line of
              Some match \<Rightarrow> List.insert (match ! 0) stageNames
            | None \<Rightarrow> stageNames)
      lines []"

definition scanLine :: "string list \<Rightarrow> string \<Rightarrow> string list \<Rightarrow> string list" where
  "scanLine stageNames line depsMap =
    (let depsMap1 =
           (case matchItems fromPattern line of
              Some match \<Rightarrow> List.insert ((match ! 0) @ '':'' @ (match ! 1)) depsMap
            | None \<Rightarrow> depsMap)
     in case matchItems copyFromPattern line of
          Some match \<Rightarrow>
            (let fromRef = match ! 0 in
             if fromRef \<notin> set stageNames then
               (case searchItems registryPattern fromRef of
                  Some registryMatch \<Rightarrow>
                    List.insert ((registryMatch ! 0) @ '':'' @ (registryMatch ! 1)) depsMap1
                | None \<Rightarrow> depsMap1)
             else depsMap1)
        | None \<Rightarrow> depsMap1)"

datatype ioError = ReadFileError string

definition parseDockerfileDependencies ::
  "(string \<rightharpoonup> string) \<Rightarrow> string \<Rightarrow> ioError + string list" where
  "parseDockerfileDependencies fs dockerfilePath =
    (case fs dockerfilePath of
       None \<Rightarrow> Inl (ReadFileError dockerfilePath)
     | Some content \<Rightarrow>
         (let lines = splitLines content;
              stageNames = stageNamesOf lines;
              depsMap = fold (scanLine stageNames) lines []
          in Inr (sort depsMap)))"

subsection \<open>Job identifiers and the job list\<close>

text \<open>
  \<^verbatim>\<open>generateJobID\<close>. A character outside \<^verbatim>\<open>[a-zA-Z0-9_-]\<close> becomes a dash (per byte here,
  per rune in Go: the runs of dashes are collapsed next, so the result is the same).
\<close>

definition isLetter :: "char \<Rightarrow> bool" where
  "isLetter c = ((CHR ''a'' \<le> c \<and> c \<le> CHR ''z'') \<or> (CHR ''A'' \<le> c \<and> c \<le> CHR ''Z''))"

definition isJobIDChar :: "char \<Rightarrow> bool" where
  "isJobIDChar c =
    (isLetter c \<or> (CHR ''0'' \<le> c \<and> c \<le> CHR ''9'') \<or> c = CHR ''_'' \<or> c = CHR ''-'')"

fun collapseDashes :: "string \<Rightarrow> string" where
  "collapseDashes (a # b # cs) =
    (if a = CHR ''-'' \<and> b = CHR ''-'' then collapseDashes (b # cs)
     else a # collapseDashes (b # cs))"
| "collapseDashes cs = cs"

definition trimDashes :: "string \<Rightarrow> string" where
  "trimDashes s =
    rev (dropWhile (\<lambda>c. c = CHR ''-'') (rev (dropWhile (\<lambda>c. c = CHR ''-'') s)))"

definition generateJobID :: "string \<Rightarrow> string \<Rightarrow> string" where
  "generateJobID imageName version =
    (let id0 = imageName @ ''-'' @ version;
         id1 = map (\<lambda>c. if isJobIDChar c then c else CHR ''-'') id0;
         id2 = collapseDashes id1;
         id3 = trimDashes id2
     in if (case id3 of c # cs \<Rightarrow> isLetter c \<or> c = CHR ''_'' | [] \<Rightarrow> False) then id3
        else ''build-'' @ id3)"

text \<open>
  \<^verbatim>\<open>buildJobsFromConfig\<close> over \<^verbatim>\<open>cfg.Images\<close>; \<open>filepathJoin\<close> is \<^verbatim>\<open>filepath.Join\<close> of the
  Go standard library.
\<close>

record Image =
  Path :: string
  Defaults :: "ImageConfig option"
  Versions :: "(string \<times> ImageConfig option) list"

definition buildJobsFromConfig ::
  "(string list \<Rightarrow> string) \<Rightarrow> (string \<times> Image) list \<Rightarrow> Job list" where
  "buildJobsFromConfig filepathJoin images =
    concat (map (\<lambda>imageName.
        case map_of images imageName of
          None \<Rightarrow> []
        | Some img \<Rightarrow>
            map (\<lambda>version.
                  \<lparr>ID = generateJobID imageName version,
                   Name = ''Build '' @ imageName @ '':'' @ version,
                   ImageName = imageName,
                   Version = version,
                   DockerfilePath = filepathJoin [''images'', Path img, version, ''Dockerfile''],
                   Needs = []\<rparr>)
              (sort (map fst (Versions img))))
      (sort (map fst images)))"

text \<open>
  \<^verbatim>\<open>orderJobsByDependencies\<close>, reading the build files from \<open>fs\<close>. Its \<^verbatim>\<open>jobMap\<close> is
  keyed by \<^verbatim>\<open><image>:<version>\<close>; a key without a job is dropped.
\<close>

datatype workflowError = ParseError string ioError | SortError error

definition keyJobMap :: "Job list \<Rightarrow> (string \<rightharpoonup> Job)" where
  "keyJobMap jobs = fold (\<lambda>job m. m(ImageName job @ '':'' @ Version job \<mapsto> job)) jobs Map.empty"

fun attachNeeds ::
  "(string \<rightharpoonup> string) \<Rightarrow> (string \<rightharpoonup> Job) \<Rightarrow> Job list \<Rightarrow> workflowError + Job list" where
  "attachNeeds fs m [] = Inr []"
| "attachNeeds fs m (job # rest) =
    (case parseDockerfileDependencies fs (DockerfilePath job) of
       Inl err \<Rightarrow> Inl (ParseError (Name job) err)
     | Inr deps \<Rightarrow>
         (case attachNeeds fs m rest of
            Inl err \<Rightarrow> Inl err
          | Inr rest' \<Rightarrow>
              Inr (job\<lparr>Needs := List.map_filter (\<lambda>dep. map_option ID (m dep)) deps\<rparr> # rest')))"

definition orderJobsByDependencies ::
  "(string \<rightharpoonup> string) \<Rightarrow> Job list \<Rightarrow> workflowError + Job list" where
  "orderJobsByDependencies fs jobs =
    (case attachNeeds fs (keyJobMap jobs) jobs of
       Inl err \<Rightarrow> Inl err
     | Inr jobs' \<Rightarrow>
         (case topologicalSort jobs' of
            Inl err \<Rightarrow> Inl (SortError err)
          | Inr ordered \<Rightarrow> Inr ordered))"

section \<open>Dependency extraction\<close>

fun captures :: "item list \<Rightarrow> nat" where
  "captures [] = 0"
| "captures (Lit l # rest) = captures rest"
| "captures (Rep lo cls cap # rest) = (if cap then Suc (captures rest) else captures rest)"

lemma firstMatch_Some:
  "firstMatch f lo n = Some r \<Longrightarrow> \<exists>k. lo \<le> k \<and> k \<le> n \<and> f k = Some r"
proof (induction n)
  case 0
  then show ?case by (auto split: if_splits)
next
  case (Suc n)
  show ?case
  proof (cases "f (Suc n)")
    case None
    with Suc.prems have "firstMatch f lo n = Some r"
      by (auto split: if_splits)
    from Suc.IH [OF this] show ?thesis
      by (meson le_SucI)
  next
    case (Some a)
    with Suc.prems show ?thesis
      by (auto split: if_splits intro!: exI [of _ "Suc n"])
  qed
qed

lemma matchItems_length:
  "matchItems re s = Some groups \<Longrightarrow> length groups = captures re"
proof (induction re arbitrary: s groups)
  case Nil
  then show ?case by simp
next
  case (Cons it rest)
  show ?case
  proof (cases it)
    case (Lit l)
    with Cons show ?thesis
      by (auto split: if_splits)
  next
    case (Rep lo cls cap)
    with Cons.prems obtain k where
      "(case matchItems rest (drop k s) of
          None \<Rightarrow> None
        | Some g \<Rightarrow> Some (if cap then take k s # g else g)) = Some groups"
      by (auto dest: firstMatch_Some)
    then obtain g where "matchItems rest (drop k s) = Some g"
      and "groups = (if cap then take k s # g else g)"
      by (auto split: option.splits)
    with Cons.IH [of "drop k s" g] Rep show ?thesis
      by simp
  qed
qed

lemma searchItems_length:
  "searchItems re s = Some groups \<Longrightarrow> length groups = captures re"
  by (induction re s rule: searchItems.induct) (auto split: option.splits dest: matchItems_length)

lemma two_groups: "length g = Suc (Suc 0) \<Longrightarrow> g = [g ! 0, g ! Suc 0]"
  by (cases g; cases "tl g") auto

lemma one_group: "length g = Suc 0 \<Longrightarrow> g = [g ! 0]"
  by (cases g) auto

lemma fromPattern_groups:
  "matchItems fromPattern line = Some m \<Longrightarrow> m = [m ! 0, m ! 1]"
  using matchItems_length [of fromPattern line m] two_groups [of m]
  by (simp add: fromPattern_def)

lemma registryPattern_groups:
  "searchItems registryPattern r = Some m \<Longrightarrow> m = [m ! 0, m ! 1]"
  using searchItems_length [of registryPattern r m] two_groups [of m]
  by (simp add: registryPattern_def)

lemma copyFromPattern_groups:
  "matchItems copyFromPattern line = Some m \<Longrightarrow> m = [m ! 0]"
  by (drule matchItems_length) (simp add: copyFromPattern_def one_group)

lemma stagePattern_groups:
  "matchItems stagePattern line = Some m \<Longrightarrow> m = [m ! 0]"
  by (drule matchItems_length) (simp add: stagePattern_def one_group)

definition lineKeys :: "string list \<Rightarrow> string \<Rightarrow> string set" where
  "lineKeys stageNames line =
     {image @ '':'' @ version | image version.
        matchItems fromPattern line = Some [image, version]}
     \<union> {image @ '':'' @ version | image version fromRef.
        matchItems copyFromPattern line = Some [fromRef] \<and> fromRef \<notin> set stageNames
        \<and> searchItems registryPattern fromRef = Some [image, version]}"

lemma scanLine_set:
  "set (scanLine stageNames line depsMap) = set depsMap \<union> lineKeys stageNames line"
proof -
  have from_keys: "{image @ '':'' @ version | image version.
        matchItems fromPattern line = Some [image, version]}
      = (case matchItems fromPattern line of
           Some m \<Rightarrow> {(m ! 0) @ '':'' @ (m ! 1)} | None \<Rightarrow> {})"
  proof (cases "matchItems fromPattern line")
    case None
    then show ?thesis by simp
  next
    case (Some m)
    with fromPattern_groups [OF Some] show ?thesis
      by (cases m; cases "tl m") auto
  qed
  have copy_keys: "{image @ '':'' @ version | image version fromRef.
        matchItems copyFromPattern line = Some [fromRef] \<and> fromRef \<notin> set stageNames
        \<and> searchItems registryPattern fromRef = Some [image, version]}
      = (case matchItems copyFromPattern line of
           Some m \<Rightarrow>
             (if m ! 0 \<notin> set stageNames then
                (case searchItems registryPattern (m ! 0) of
                   Some r \<Rightarrow> {(r ! 0) @ '':'' @ (r ! 1)} | None \<Rightarrow> {})
              else {})
         | None \<Rightarrow> {})"
  proof (cases "matchItems copyFromPattern line")
    case None
    then show ?thesis by simp
  next
    case (Some m)
    from copyFromPattern_groups [OF Some] have m: "m = [m ! 0]" .
    show ?thesis
    proof (cases "searchItems registryPattern (m ! 0)")
      case None
      with Some m show ?thesis
        by (cases m) auto
    next
      case (Some r)
      from registryPattern_groups [OF Some] have "r = [r ! 0, r ! 1]" .
      with Some \<open>matchItems copyFromPattern line = Some m\<close> m show ?thesis
        by (cases m; cases r; cases "tl r") auto
    qed
  qed
  show ?thesis
    unfolding lineKeys_def from_keys copy_keys
    by (auto simp: scanLine_def Let_def split: option.splits)
qed

lemma scanLine_distinct:
  "distinct depsMap \<Longrightarrow> distinct (scanLine stageNames line depsMap)"
  by (auto simp: scanLine_def Let_def split: option.splits)

lemma fold_scanLine:
  "set (fold (scanLine stageNames) lines depsMap)
     = set depsMap \<union> (\<Union>line \<in> set lines. lineKeys stageNames line)"
  "distinct depsMap \<Longrightarrow> distinct (fold (scanLine stageNames) lines depsMap)"
  by (induction lines arbitrary: depsMap) (auto simp: scanLine_set scanLine_distinct)

lemma stageNamesOf_set:
  "set (stageNamesOf lines)
     = {alias. \<exists>line \<in> set lines. matchItems stagePattern line = Some [alias]}"
proof -
  let ?step = "\<lambda>line stageNames.
            case matchItems stagePattern line of
              Some match \<Rightarrow> List.insert (match ! 0) stageNames
            | None \<Rightarrow> stageNames"
  have step: "set (?step line acc)
      = set acc \<union> {alias. matchItems stagePattern line = Some [alias]}" for line acc
  proof (cases "matchItems stagePattern line")
    case None
    then show ?thesis by simp
  next
    case (Some m)
    with stagePattern_groups [OF Some] show ?thesis
      by (cases m) auto
  qed
  have "set (fold ?step lines acc)
      = set acc \<union> {alias. \<exists>line \<in> set lines. matchItems stagePattern line = Some [alias]}"
    for acc
  proof (induction lines arbitrary: acc)
    case Nil
    then show ?case by simp
  next
    case (Cons a lines)
    have "set (fold ?step (a # lines) acc) = set (fold ?step lines (?step a acc))"
      by simp
    also have "\<dots> = set (?step a acc)
        \<union> {alias. \<exists>line \<in> set lines. matchItems stagePattern line = Some [alias]}"
      by (rule Cons.IH)
    finally show ?case
      unfolding step by auto
  qed
  from this [of "[]"] show ?thesis
    by (simp add: stageNamesOf_def)
qed

text \<open>
  C3. For every build file that can be read, \<^verbatim>\<open>parseDockerfileDependencies\<close> returns a list
  that is sorted and without duplicates, and whose elements are exactly: the keys
  \<^verbatim>\<open><image>:<version>\<close> of the lines that the origin pattern
  \<^verbatim>\<open>FROM ${REGISTRY}/<image>:<version>\<close> matches; and, for the lines that the
  \<^verbatim>\<open>COPY --from=\<close> pattern matches with a reference that is no stage alias of a
  \<^verbatim>\<open>FROM ... AS <alias>\<close> line of the same file, the key that the
  \<^verbatim>\<open>${REGISTRY}/<image>:<version>\<close> pattern finds in the reference. Nothing else is in
  the list.
\<close>

theorem parseDockerfileDependencies_keys:
  assumes "fs dockerfilePath = Some content"
  shows "\<exists>deps. parseDockerfileDependencies fs dockerfilePath = Inr deps
     \<and> sorted_wrt (\<le>) deps \<and> distinct deps
     \<and> set deps =
         {image @ '':'' @ version | image version line.
            line \<in> set (splitLines content)
            \<and> matchItems fromPattern line = Some [image, version]}
         \<union> {image @ '':'' @ version | image version line fromRef.
            line \<in> set (splitLines content)
            \<and> matchItems copyFromPattern line = Some [fromRef]
            \<and> fromRef \<notin> {alias. \<exists>l \<in> set (splitLines content).
                              matchItems stagePattern l = Some [alias]}
            \<and> searchItems registryPattern fromRef = Some [image, version]}"
proof -
  let ?lines = "splitLines content"
  let ?deps = "sort (fold (scanLine (stageNamesOf ?lines)) ?lines [])"
  have r: "parseDockerfileDependencies fs dockerfilePath = Inr ?deps"
    using assms by (simp add: parseDockerfileDependencies_def Let_def)
  have s: "sorted_wrt (\<le>) ?deps"
    using sorted_sort [of "fold (scanLine (stageNamesOf ?lines)) ?lines []"] by simp
  have d: "distinct ?deps"
    by (simp add: fold_scanLine(2))
  have "set ?deps = (\<Union>line \<in> set ?lines. lineKeys (stageNamesOf ?lines) line)"
    by (simp add: fold_scanLine(1))
  also have "\<dots> =
         {image @ '':'' @ version | image version line.
            line \<in> set ?lines \<and> matchItems fromPattern line = Some [image, version]}
         \<union> {image @ '':'' @ version | image version line fromRef.
            line \<in> set ?lines
            \<and> matchItems copyFromPattern line = Some [fromRef]
            \<and> fromRef \<notin> {alias. \<exists>l \<in> set ?lines. matchItems stagePattern l = Some [alias]}
            \<and> searchItems registryPattern fromRef = Some [image, version]}"
    unfolding lineKeys_def stageNamesOf_set by blast
  finally show ?thesis
    using r s d by blast
qed

theorem parseDockerfileDependencies_keys_witness:
  "\<exists>deps. parseDockerfileDependencies
       [''Dockerfile'' \<mapsto>
          ''ARG REGISTRY=test.io'' @ [CHR 0x0A] @
          ''FROM ${REGISTRY}/base:v1'' @ [CHR 0x0A] @
          ''COPY --from=${REGISTRY}/builder:v2 /app /app'' @ [CHR 0x0A]]
       ''Dockerfile'' = Inr deps
     \<and> deps = [''base:v1'', ''builder:v2'']
     \<and> sorted_wrt (\<le>) deps \<and> distinct deps"
proof -
  let ?content = "''ARG REGISTRY=test.io'' @ [CHR 0x0A] @
          ''FROM ${REGISTRY}/base:v1'' @ [CHR 0x0A] @
          ''COPY --from=${REGISTRY}/builder:v2 /app /app'' @ [CHR 0x0A]"
  let ?fs = "[''Dockerfile'' \<mapsto> ?content]"
  have readable: "?fs ''Dockerfile'' = Some ?content" by simp
  have run: "parseDockerfileDependencies ?fs ''Dockerfile'' = Inr [''base:v1'', ''builder:v2'']"
    by code_simp
  from parseDockerfileDependencies_keys [of ?fs "''Dockerfile''" ?content] readable run
  show ?thesis
    by auto
qed

text \<open>
  A reference that is a stage alias is left out even when it has the registry form, and
  a repeated reference gives one key.
\<close>

lemma parseDockerfileDependencies_alias:
  "parseDockerfileDependencies
     [''Dockerfile'' \<mapsto>
        ''FROM alpine AS ${REGISTRY}/x:y'' @ [CHR 0x0A] @
        ''FROM ${REGISTRY}/base:v1'' @ [CHR 0x0A] @
        ''COPY --from=${REGISTRY}/x:y /lib /lib'' @ [CHR 0x0A] @
        ''COPY --from=${REGISTRY}/base:v1 /lib /lib'' @ [CHR 0x0A]]
     ''Dockerfile'' = Inr [''base:v1'']"
  by code_simp

section \<open>Topological order\<close>

lemma jobMap_fold:
  fixes jobs :: "Job list"
  shows "fold (\<lambda>job m. m(ID job \<mapsto> job)) jobs m0 x = Some j \<Longrightarrow>
   (j \<in> set jobs \<and> ID j = x) \<or> m0 x = Some j"
proof (induction jobs arbitrary: m0)
  case Nil
  then show ?case by simp
next
  case (Cons a jobs)
  from Cons.prems have "fold (\<lambda>job m. m(ID job \<mapsto> job)) jobs (m0(ID a \<mapsto> a)) x = Some j"
    by (simp only: fold_simps)
  from Cons.IH [OF this] show ?case
    by (auto split: if_splits)
qed

lemma jobMap_Some: "jobMap jobs x = Some j \<Longrightarrow> j \<in> set jobs \<and> ID j = x"
  using jobMap_fold [of jobs Map.empty x j] by (simp add: jobMap_def)

lemma jobMap_fold_distinct:
  fixes jobs :: "Job list"
  shows "distinct (map ID jobs) \<Longrightarrow> j \<in> set jobs \<Longrightarrow>
   fold (\<lambda>job m. m(ID job \<mapsto> job)) jobs m0 (ID j) = Some j"
proof (induction jobs arbitrary: m0)
  case Nil
  then show ?case by simp
next
  case (Cons a jobs)
  show ?case
  proof (cases "j \<in> set jobs")
    case True
    have "distinct (map ID jobs)"
      using Cons.prems(1) by simp
    from Cons.IH [OF this True] show ?thesis
      by (simp only: fold_simps)
  next
    case False
    with Cons.prems have a: "a = j" and "ID j \<notin> ID ` set jobs" by auto
    have keep: "fold (\<lambda>job m. m(ID job \<mapsto> job)) jobs m1 x = m1 x" if "x \<notin> ID ` set jobs"
      for m1 :: "string \<rightharpoonup> Job" and x and jobs :: "Job list"
      using that by (induction jobs arbitrary: m1) auto
    have "fold (\<lambda>job m. m(ID job \<mapsto> job)) (a # jobs) m0 (ID j)
        = fold (\<lambda>job m. m(ID job \<mapsto> job)) jobs (m0(ID j \<mapsto> j)) (ID j)"
      by (simp only: fold_simps a)
    also have "\<dots> = (m0(ID j \<mapsto> j)) (ID j)"
      by (rule keep [OF \<open>ID j \<notin> ID ` set jobs\<close>])
    also have "\<dots> = Some j"
      by simp
    finally show ?thesis .
  qed
qed

lemma jobMap_distinct:
  "distinct (map ID jobs) \<Longrightarrow> j \<in> set jobs \<Longrightarrow> jobMap jobs (ID j) = Some j"
  by (simp add: jobMap_def jobMap_fold_distinct)

lemma lookupEdges_distinct:
  assumes "distinct (map ID jobs)"
  shows "lookupEdges jobs = edges jobs"
proof -
  have "(x, d) \<in> lookupEdges jobs \<longleftrightarrow> (x, d) \<in> edges jobs" for x d
    unfolding lookupEdges_def edges_def
    using jobMap_Some jobMap_distinct [OF assms] by fastforce
  then show ?thesis by auto
qed

lemma visitAll_visitNeeds: "visitAll jobs rest s = visitNeeds jobs (map ID rest) s"
  by (induction rest arbitrary: s) (auto split: sum.splits)

declare visit.simps [simp del]

lemma follows_refl: "follows jobs s s"
  by (simp add: follows_def)

lemma follows_trans: "follows jobs s s1 \<Longrightarrow> follows jobs s1 s2 \<Longrightarrow> follows jobs s s2"
  by (auto simp: follows_def)

lemma visit_Inr_cases:
  assumes "visit jobs x s = Inr s'"
  obtains (seen) "visited s x" "s' = s"
  | (fresh) job s2 where "\<not> visited s x" "\<not> visiting s x" "jobMap jobs x = Some job"
      "visitNeeds jobs (Needs job) (s\<lparr>visiting := (visiting s)(x := True)\<rparr>) = Inr s2"
      "s' = s2\<lparr>visiting := (visiting s2)(x := False),
               visited := (visited s2)(x := True),
               sortedJobs := sortedJobs s2 @ [job]\<rparr>"
  using assms by (subst (asm) visit.simps) (auto split: if_splits option.splits sum.splits)

lemma sortedOK_visiting [simp]: "sortedOK jobs (s\<lparr>visiting := v\<rparr>) = sortedOK jobs s"
  by (simp add: sortedOK_def)

lemma sortedOK_append:
  assumes ok: "sortedOK jobs s2"
    and job: "jobMap jobs x = Some job"
    and new: "\<not> visited s2 x"
    and needs: "\<forall>d \<in> set (Needs job). visited s2 d"
  shows "sortedOK jobs (s2\<lparr>visiting := v, visited := (visited s2)(x := True),
                          sortedJobs := sortedJobs s2 @ [job]\<rparr>)"
proof -
  have idx: "ID job = x"
    using jobMap_Some [OF job] by simp
  have vis: "\<forall>y. visited s2 y = (y \<in> ID ` set (sortedJobs s2))"
    and dist: "distinct (map ID (sortedJobs s2))"
    and mem: "\<forall>j \<in> set (sortedJobs s2). jobMap jobs (ID j) = Some j"
    and ord: "\<forall>i < length (sortedJobs s2). \<forall>d \<in> set (Needs (sortedJobs s2 ! i)).
           d \<in> ID ` set (take i (sortedJobs s2))"
    using ok by (auto simp: sortedOK_def)
  have a: "\<forall>y. ((visited s2)(x := True)) y = (y \<in> ID ` set (sortedJobs s2 @ [job]))"
    using vis idx by auto
  have b: "distinct (map ID (sortedJobs s2 @ [job]))"
    using dist new vis idx by auto
  have c: "\<forall>j \<in> set (sortedJobs s2 @ [job]). jobMap jobs (ID j) = Some j"
    using mem job idx by auto
  have d: "\<forall>i < length (sortedJobs s2 @ [job]). \<forall>d \<in> set (Needs ((sortedJobs s2 @ [job]) ! i)).
           d \<in> ID ` set (take i (sortedJobs s2 @ [job]))"
  proof (intro allI impI ballI)
    fix i d
    assume i: "i < length (sortedJobs s2 @ [job])"
      and d: "d \<in> set (Needs ((sortedJobs s2 @ [job]) ! i))"
    show "d \<in> ID ` set (take i (sortedJobs s2 @ [job]))"
    proof (cases "i < length (sortedJobs s2)")
      case True
      with d ord show ?thesis
        by (simp add: nth_append)
    next
      case False
      with i have "i = length (sortedJobs s2)" by simp
      with d needs vis show ?thesis
        by simp
    qed
  qed
  show ?thesis
    unfolding sortedOK_def using a b c d by simp
qed

lemma follows_finish:
  assumes nv: "\<not> visited s x" and ng: "\<not> visiting s x"
    and job: "jobMap jobs x = Some job"
    and sub: "follows jobs (s\<lparr>visiting := (visiting s)(x := True)\<rparr>) s2"
    and needs: "\<forall>d \<in> set (Needs job). visited s2 d"
  shows "follows jobs s (s2\<lparr>visiting := (visiting s2)(x := False),
                            visited := (visited s2)(x := True),
                            sortedJobs := sortedJobs s2 @ [job]\<rparr>)"
proof -
  have v2: "visiting s2 = (visiting s)(x := True)"
    and mono: "\<forall>y. visited s y \<longrightarrow> visited s2 y"
    and keep: "\<forall>y. ((visiting s)(x := True)) y \<and> \<not> visited s y \<longrightarrow> \<not> visited s2 y"
    and ok: "sortedOK jobs s \<longrightarrow> sortedOK jobs s2"
    using sub by (auto simp: follows_def)
  have new: "\<not> visited s2 x"
    using keep nv by simp
  have 1: "(visiting s2)(x := False) = visiting s"
    using v2 ng by (auto simp: fun_eq_iff)
  have 2: "\<forall>y. visited s y \<longrightarrow> ((visited s2)(x := True)) y"
    using mono by simp
  have 3: "\<forall>y. visiting s y \<and> \<not> visited s y \<longrightarrow> \<not> ((visited s2)(x := True)) y"
    using keep ng by auto
  have 4: "sortedOK jobs s \<longrightarrow>
      sortedOK jobs (s2\<lparr>visiting := (visiting s2)(x := False),
                         visited := (visited s2)(x := True),
                         sortedJobs := sortedJobs s2 @ [job]\<rparr>)"
    using ok sortedOK_append [OF _ job new needs] by blast
  show ?thesis
    unfolding follows_def using 1 2 3 4 by simp
qed

lemma visit_follows:
  "visit jobs x s = Inr s' \<Longrightarrow> follows jobs s s' \<and> visited s' x"
  "visitNeeds jobs ds s = Inr s' \<Longrightarrow> follows jobs s s' \<and> (\<forall>d \<in> set ds. visited s' d)"
proof (induction jobs x s and jobs ds s arbitrary: s' and s' rule: visit_visitNeeds.induct)
  case (1 jobs jobID s)
  from 1(2) show ?case
  proof (cases rule: visit_Inr_cases)
    case seen
    then show ?thesis by (simp add: follows_refl)
  next
    case (fresh job s2)
    from 1(1) [OF fresh(1,2,3,4)] have
      sub: "follows jobs (s\<lparr>visiting := (visiting s)(jobID := True)\<rparr>) s2"
      and needs: "\<forall>d \<in> set (Needs job). visited s2 d"
      by simp_all
    from follows_finish [OF fresh(1,2,3) sub needs] show ?thesis
      by (simp add: fresh(5))
  qed
next
  case (2 jobs s)
  then show ?case by (simp add: follows_refl)
next
  case (3 jobs dep deps s)
  from 3(3) obtain s1 where
    s1: "visit jobs dep s = Inr s1" and rest: "visitNeeds jobs deps s1 = Inr s'"
    by (auto split: sum.splits)
  from 3(1) [OF s1] have a: "follows jobs s s1" "visited s1 dep" by simp_all
  from 3(2) [OF s1 rest] have b: "follows jobs s1 s'" "\<forall>d \<in> set deps. visited s' d" by simp_all
  from a(2) b(1) have "visited s' dep"
    by (simp add: follows_def)
  with follows_trans [OF a(1) b(1)] b(2) show ?case
    by simp
qed

lemma visit_no_nil:
  assumes "needsKnown jobs"
  shows "x \<in> ID ` set jobs \<Longrightarrow> visit jobs x s \<noteq> Inl NilPointerDereference"
    and "set ds \<subseteq> ID ` set jobs \<Longrightarrow> visitNeeds jobs ds s \<noteq> Inl NilPointerDereference"
  using assms
proof (induction jobs x s and jobs ds s rule: visit_visitNeeds.induct)
  case (1 jobs jobID s)
  show ?case
  proof (cases "visited s jobID \<or> visiting s jobID")
    case True
    then show ?thesis by (subst visit.simps) auto
  next
    case False
    from 1(2) have "jobID \<in> dom (jobMap jobs)"
      by (simp add: jobMap_dom)
    then obtain job where job: "jobMap jobs jobID = Some job" by auto
    then have "job \<in> set jobs" using jobMap_Some by blast
    with 1(3) have "set (Needs job) \<subseteq> ID ` set jobs"
      by (auto simp: needsKnown_def)
    from 1(1) [OF _ _ job this 1(3)] False
    have "visitNeeds jobs (Needs job) (s\<lparr>visiting := (visiting s)(jobID := True)\<rparr>)
        \<noteq> Inl NilPointerDereference"
      by simp
    with False job show ?thesis
      by (subst visit.simps) (auto split: sum.splits)
  qed
next
  case (2 jobs s)
  then show ?case by simp
next
  case (3 jobs dep deps s)
  then show ?case
    by (auto split: sum.splits)
qed

lemma visit_circular:
  "visit jobs x s = Inl (CircularDependency y) \<Longrightarrow>
   \<forall>v. visiting s v \<longrightarrow> (v, x) \<in> (lookupEdges jobs)\<^sup>+ \<Longrightarrow>
   (y, y) \<in> (lookupEdges jobs)\<^sup>+"
  "visitNeeds jobs ds s = Inl (CircularDependency y) \<Longrightarrow>
   \<forall>v. visiting s v \<longrightarrow> (\<forall>d \<in> set ds. (v, d) \<in> (lookupEdges jobs)\<^sup>+) \<Longrightarrow>
   (y, y) \<in> (lookupEdges jobs)\<^sup>+"
proof (induction jobs x s and jobs ds s rule: visit_visitNeeds.induct)
  case (1 jobs jobID s)
  show ?case
  proof (cases "visiting s jobID")
    case True
    with 1(2) have "y = jobID"
      by (subst (asm) visit.simps) (auto split: if_splits)
    with True 1(3) show ?thesis by simp
  next
    case False
    with 1(2) obtain job where nv: "\<not> visited s jobID"
      and job: "jobMap jobs jobID = Some job"
      and err: "visitNeeds jobs (Needs job) (s\<lparr>visiting := (visiting s)(jobID := True)\<rparr>)
          = Inl (CircularDependency y)"
      by (subst (asm) visit.simps) (auto split: if_splits option.splits sum.splits)
    have edge: "(jobID, d) \<in> lookupEdges jobs" if "d \<in> set (Needs job)" for d
      using that job by (auto simp: lookupEdges_def)
    have "\<forall>v. visiting (s\<lparr>visiting := (visiting s)(jobID := True)\<rparr>) v \<longrightarrow>
        (\<forall>d \<in> set (Needs job). (v, d) \<in> (lookupEdges jobs)\<^sup>+)"
    proof (intro allI impI ballI)
      fix v d
      assume v: "visiting (s\<lparr>visiting := (visiting s)(jobID := True)\<rparr>) v"
        and d: "d \<in> set (Needs job)"
      show "(v, d) \<in> (lookupEdges jobs)\<^sup>+"
      proof (cases "v = jobID")
        case True
        with edge [OF d] show ?thesis by auto
      next
        case False
        with v have "visiting s v" by simp
        with 1(3) have "(v, jobID) \<in> (lookupEdges jobs)\<^sup>+" by simp
        with edge [OF d] show ?thesis by (blast intro: trancl_into_trancl)
      qed
    qed
    from 1(1) [OF nv False job err this] show ?thesis .
  qed
next
  case (2 jobs s)
  then show ?case by simp
next
  case (3 jobs dep deps s)
  show ?case
  proof (cases "visit jobs dep s")
    case (Inl e)
    with 3(3) have "visit jobs dep s = Inl (CircularDependency y)" by simp
    from 3(1) [OF this] 3(4) show ?thesis by simp
  next
    case (Inr s1)
    with 3(3) have rest: "visitNeeds jobs deps s1 = Inl (CircularDependency y)" by simp
    from visit_follows(1) [OF Inr] have "visiting s1 = visiting s"
      by (simp add: follows_def)
    with 3(2) [OF Inr rest] 3(4) show ?thesis by simp
  qed
qed

lemma topologicalSort_alt:
  "topologicalSort jobs =
    (case visitNeeds jobs (map ID jobs) initialState of
       Inl err \<Rightarrow> Inl err
     | Inr s \<Rightarrow> Inr (sortedJobs s))"
  by (simp add: topologicalSort_def visitAll_visitNeeds initialState_def)

lemma sortedOK_initial: "sortedOK jobs initialState"
  by (simp add: sortedOK_def initialState_def)

lemma sort_final:
  assumes "topologicalSort jobs = Inr out"
  obtains s where "visitNeeds jobs (map ID jobs) initialState = Inr s" "out = sortedJobs s"
    "sortedOK jobs s" "\<forall>j \<in> set jobs. visited s (ID j)"
proof -
  from assms obtain s where
    s: "visitNeeds jobs (map ID jobs) initialState = Inr s" and out: "out = sortedJobs s"
    by (auto simp: topologicalSort_alt split: sum.splits)
  from visit_follows(2) [OF s] sortedOK_initial [of jobs]
  have "sortedOK jobs s" "\<forall>j \<in> set jobs. visited s (ID j)"
    by (auto simp: follows_def)
  with s out that show ?thesis by blast
qed

lemma sort_output_order:
  assumes "topologicalSort jobs = Inr out"
  shows "set out \<subseteq> set jobs"
    and "distinct (map ID out)"
    and "\<forall>i < length out. \<forall>d \<in> set (Needs (out ! i)). \<exists>i' < i. ID (out ! i') = d"
proof -
  from assms obtain s where out: "out = sortedJobs s" and ok: "sortedOK jobs s"
    by (rule sort_final)
  show "set out \<subseteq> set jobs"
    using ok jobMap_Some unfolding sortedOK_def out by blast
  show "distinct (map ID out)"
    using ok by (simp add: sortedOK_def out)
  show "\<forall>i < length out. \<forall>d \<in> set (Needs (out ! i)). \<exists>i' < i. ID (out ! i') = d"
  proof (intro allI impI ballI)
    fix i d
    assume i: "i < length out" and d: "d \<in> set (Needs (out ! i))"
    with ok have "d \<in> ID ` set (take i out)"
      by (simp add: sortedOK_def out)
    then obtain j where "j \<in> set (take i out)" "d = ID j" by auto
    then obtain i' where "i' < length (take i out)" "take i out ! i' = j"
      by (auto simp: in_set_conv_nth)
    with i \<open>d = ID j\<close> show "\<exists>i' < i. ID (out ! i') = d"
      by (intro exI [of _ i']) simp
  qed
qed

lemma sort_output_complete:
  assumes dist: "distinct (map ID jobs)" and res: "topologicalSort jobs = Inr out"
  shows "set out = set jobs" and "mset out = mset jobs"
proof -
  from res obtain s where out: "out = sortedJobs s" and ok: "sortedOK jobs s"
    and all: "\<forall>j \<in> set jobs. visited s (ID j)"
    by (rule sort_final)
  have "j \<in> set out" if j: "j \<in> set jobs" for j
  proof -
    from all j ok obtain j' where j': "j' \<in> set out" "ID j' = ID j"
      by (auto simp: sortedOK_def out)
    with ok have "jobMap jobs (ID j) = Some j'"
      by (auto simp: sortedOK_def out)
    with jobMap_distinct [OF dist j] have "j' = j" by simp
    with j' show ?thesis by simp
  qed
  with sort_output_order(1) [OF res] show eq: "set out = set jobs" by blast
  have "distinct out" "distinct jobs"
    using sort_output_order(2) [OF res] dist by (auto simp: distinct_map)
  with eq show "mset out = mset jobs"
    by (simp add: set_eq_iff_mset_eq_distinct)
qed

lemma takeWhile_index:
  assumes "distinct ids" and "k < length ids"
  shows "length (takeWhile (\<lambda>y. y \<noteq> ids ! k) ids) = k"
proof -
  have "takeWhile (\<lambda>y. y \<noteq> ids ! k) ids = take k ids"
  proof (rule takeWhile_eq_take_P_nth)
    fix i assume "i < k" "i < length ids"
    with assms show "ids ! i \<noteq> ids ! k"
      by (simp add: nth_eq_iff_index_eq)
  next
    show "\<not> ids ! k \<noteq> ids ! k" by simp
  qed
  with assms(2) show ?thesis by simp
qed

lemma sort_success_acyclic:
  assumes dist: "distinct (map ID jobs)" and res: "topologicalSort jobs = Inr out"
  shows "acyclic (edges jobs)"
proof (rule acyclicI_order)
  let ?ids = "map ID out"
  let ?f = "\<lambda>x. length (takeWhile (\<lambda>y. y \<noteq> x) ?ids)"
  fix a d
  assume "(a, d) \<in> edges jobs"
  then obtain j where j: "j \<in> set jobs" "a = ID j" "d \<in> set (Needs j)"
    by (auto simp: edges_def)
  from j(1) sort_output_complete(1) [OF dist res] have "j \<in> set out"
    by simp
  then obtain i where i: "i < length out" "out ! i = j"
    by (auto simp: in_set_conv_nth)
  with sort_output_order(3) [OF res] j(3) obtain i' where
    i': "i' < i" "ID (out ! i') = d"
    by blast
  have dids: "distinct ?ids"
    by (rule sort_output_order(2) [OF res])
  have "?f a = i"
    using takeWhile_index [OF dids, of i] i j(2) by simp
  moreover have "?f d = i'"
    using takeWhile_index [OF dids, of i'] i i' by simp
  ultimately show "?f d < ?f a"
    using i' by simp
qed

lemma sort_error_cases:
  assumes known: "needsKnown jobs" and err: "topologicalSort jobs = Inl e"
  shows "\<exists>y. e = CircularDependency y \<and> (y, y) \<in> (lookupEdges jobs)\<^sup>+"
proof -
  from err have v: "visitNeeds jobs (map ID jobs) initialState = Inl e"
    by (auto simp: topologicalSort_alt split: sum.splits)
  have "e \<noteq> NilPointerDereference"
    using visit_no_nil(2) [OF known, of "map ID jobs" initialState] v by auto
  then obtain y where y: "e = CircularDependency y"
    by (cases e) auto
  have "\<forall>v. visiting initialState v \<longrightarrow>
      (\<forall>d \<in> set (map ID jobs). (v, d) \<in> (lookupEdges jobs)\<^sup>+)"
    by (simp add: initialState_def)
  from visit_circular(2) [OF v [unfolded y] this] y show ?thesis
    by simp
qed

lemma jobLiteral_sel [simp]:
  "ID (jobLiteral i n) = i" "Needs (jobLiteral i n) = n"
  by (simp_all add: jobLiteral_def)

lemma edges_list:
  "edges jobs = set (concat (map (\<lambda>j. map (\<lambda>d. (ID j, d)) (Needs j)) jobs))"
  by (auto simp: edges_def)

text \<open>
  C1, as the code has it. For a job list with pairwise distinct identifiers in which
  every need names a job of the list and the declared edges are acyclic,
  \<^verbatim>\<open>topologicalSort\<close> returns a list that holds every input job exactly once, and every
  need of a job stands before it.
\<close>

theorem topologicalSort_acyclic:
  assumes "distinct (map ID jobs)"
    and "needsKnown jobs"
    and "acyclic (edges jobs)"
  shows "\<exists>out. topologicalSort jobs = Inr out
           \<and> mset out = mset jobs
           \<and> (\<forall>i < length out. \<forall>d \<in> set (Needs (out ! i)). \<exists>i' < i. ID (out ! i') = d)"
proof (cases "topologicalSort jobs")
  case (Inl e)
  from sort_error_cases [OF assms(2) Inl] obtain y where
    "(y, y) \<in> (lookupEdges jobs)\<^sup>+" by blast
  with assms(1,3) show ?thesis
    by (simp add: lookupEdges_distinct acyclic_def)
next
  case (Inr out)
  with sort_output_complete(2) [OF assms(1) Inr] sort_output_order(3) [OF Inr]
  show ?thesis by simp
qed

theorem topologicalSort_acyclic_witness:
  "\<exists>out. topologicalSort
       [jobLiteral ''d'' [''b'', ''c''], jobLiteral ''b'' [''a''], jobLiteral ''c'' [''a''],
        jobLiteral ''a'' []] = Inr out
     \<and> mset out = mset [jobLiteral ''d'' [''b'', ''c''], jobLiteral ''b'' [''a''],
                        jobLiteral ''c'' [''a''], jobLiteral ''a'' []]
     \<and> (\<forall>i < length out. \<forall>d \<in> set (Needs (out ! i)). \<exists>i' < i. ID (out ! i') = d)"
proof -
  let ?jobs = "[jobLiteral ''d'' [''b'', ''c''], jobLiteral ''b'' [''a''],
                jobLiteral ''c'' [''a''], jobLiteral ''a'' []]"
  have d: "distinct (map ID ?jobs)" by simp
  have k: "needsKnown ?jobs" by (simp add: needsKnown_def)
  have e: "edges ?jobs = {(''d'', ''b''), (''d'', ''c''), (''b'', ''a''), (''c'', ''a'')}"
    by (simp add: edges_list insert_commute)
  have a: "acyclic (edges ?jobs)"
    unfolding e
    by (rule acyclicI_order [where f = "\<lambda>x. if x = ''a'' then 0 else if x = ''d'' then 2 else (1::nat)"])
       auto
  from topologicalSort_acyclic [OF d k a] show ?thesis .
qed

text \<open>
  C1, as stated for every job list with acyclic edges, fails on two kinds of list. Two
  images whose names differ only in characters that \<^verbatim>\<open>generateJobID\<close> replaces get the
  same identifier, and the sort returns one job for the two. A need that names no job
  makes \<^verbatim>\<open>job.Needs\<close> dereference nil.
\<close>

definition joinSlash :: "string list \<Rightarrow> string" where
  "joinSlash parts = foldr (\<lambda>p acc. if acc = [] then p else p @ ''/'' @ acc) parts []"

definition collidingImages :: "(string \<times> Image) list" where
  "collidingImages =
    [(''my-app'', \<lparr>Path = ''app/my-app'', Defaults = None, Versions = [(''v1'', None)]\<rparr>),
     (''my.app'', \<lparr>Path = ''app/my.app'', Defaults = None, Versions = [(''v1'', None)]\<rparr>)]"

lemma collidingImages_jobs:
  "buildJobsFromConfig joinSlash collidingImages =
    [\<lparr>ID = ''my-app-v1'', Name = ''Build my-app:v1'', ImageName = ''my-app'', Version = ''v1'',
      DockerfilePath = ''images/app/my-app/v1/Dockerfile'', Needs = []\<rparr>,
     \<lparr>ID = ''my-app-v1'', Name = ''Build my.app:v1'', ImageName = ''my.app'', Version = ''v1'',
      DockerfilePath = ''images/app/my.app/v1/Dockerfile'', Needs = []\<rparr>]"
  by code_simp

theorem topologicalSort_acyclic_counterexample:
  "acyclic (edges (buildJobsFromConfig joinSlash collidingImages))
   \<and> length (buildJobsFromConfig joinSlash collidingImages) = 2
   \<and> topologicalSort (buildJobsFromConfig joinSlash collidingImages) =
       Inr [\<lparr>ID = ''my-app-v1'', Name = ''Build my.app:v1'', ImageName = ''my.app'',
             Version = ''v1'', DockerfilePath = ''images/app/my.app/v1/Dockerfile'',
             Needs = []\<rparr>]
   \<and> acyclic (edges [jobLiteral ''a'' [''zz'']])
   \<and> topologicalSort [jobLiteral ''a'' [''zz'']] = Inl NilPointerDereference"
proof -
  have e1: "edges (buildJobsFromConfig joinSlash collidingImages) = {}"
    by (simp add: collidingImages_jobs edges_list)
  have e2: "edges [jobLiteral ''a'' [''zz'']] = {(''a'', ''zz'')}"
    by (simp add: edges_list)
  have a2: "acyclic {(''a'', ''zz'')}"
    by (rule acyclicI_order [where f = "\<lambda>x. if x = ''a'' then 1 else (0::nat)"]) auto
  have r1: "topologicalSort (buildJobsFromConfig joinSlash collidingImages) =
       Inr [\<lparr>ID = ''my-app-v1'', Name = ''Build my.app:v1'', ImageName = ''my.app'',
             Version = ''v1'', DockerfilePath = ''images/app/my.app/v1/Dockerfile'',
             Needs = []\<rparr>]"
    by (simp add: collidingImages_jobs topologicalSort_def visit.simps jobMap_def)
  have r2: "topologicalSort [jobLiteral ''a'' [''zz'']] = Inl NilPointerDereference"
    by (simp add: topologicalSort_def visit.simps jobMap_def)
  have a1: "acyclic (edges (buildJobsFromConfig joinSlash collidingImages))"
    unfolding e1 by (simp add: wf_acyclic)
  have a3: "acyclic (edges [jobLiteral ''a'' [''zz'']])"
    unfolding e2 by (rule a2)
  have len: "length (buildJobsFromConfig joinSlash collidingImages) = 2"
    by (simp add: collidingImages_jobs)
  show ?thesis
    using a1 len r1 a3 r2 by (intro conjI)
qed

text \<open>
  C2, as the code has it. For a job list with pairwise distinct identifiers in which
  every need names a job of the list and the declared edges have a cycle,
  \<^verbatim>\<open>topologicalSort\<close> returns no list but the circular-dependency error, and the
  identifier in the error is that of a job on a cycle.
\<close>

theorem topologicalSort_cyclic:
  assumes "distinct (map ID jobs)"
    and "needsKnown jobs"
    and "\<not> acyclic (edges jobs)"
  shows "\<exists>y. topologicalSort jobs = Inl (CircularDependency y)
           \<and> y \<in> ID ` set jobs
           \<and> (y, y) \<in> (edges jobs)\<^sup>+"
proof (cases "topologicalSort jobs")
  case (Inl e)
  from sort_error_cases [OF assms(2) Inl] obtain y where
    y: "e = CircularDependency y" "(y, y) \<in> (lookupEdges jobs)\<^sup>+" by blast
  then have cyc: "(y, y) \<in> (edges jobs)\<^sup>+"
    using assms(1) by (simp add: lookupEdges_distinct)
  then have "y \<in> Domain (edges jobs)"
    by (metis Domain.DomainI trancl_domain)
  then have "y \<in> ID ` set jobs"
    by (auto simp: edges_def)
  with Inl y(1) cyc show ?thesis by simp
next
  case (Inr out)
  from sort_success_acyclic [OF assms(1) Inr] assms(3) show ?thesis by simp
qed

theorem topologicalSort_cyclic_witness:
  "\<exists>y. topologicalSort [jobLiteral ''a'' [''b''], jobLiteral ''b'' [''a'']]
         = Inl (CircularDependency y)
     \<and> y \<in> {''a'', ''b''}"
proof -
  let ?jobs = "[jobLiteral ''a'' [''b''], jobLiteral ''b'' [''a'']]"
  have d: "distinct (map ID ?jobs)" by simp
  have k: "needsKnown ?jobs" by (simp add: needsKnown_def)
  have e: "edges ?jobs = {(''a'', ''b''), (''b'', ''a'')}"
    by (simp add: edges_list insert_commute)
  have "(''a'', ''a'') \<in> (edges ?jobs)\<^sup>+"
    unfolding e by (rule trancl_trans [of _ "''b''"]) auto
  then have c: "\<not> acyclic (edges ?jobs)"
    by (auto simp: acyclic_def)
  from topologicalSort_cyclic [OF d k c] show ?thesis
    by auto
qed

text \<open>
  C2, as stated for every job list with a cycle, fails on the same two kinds of list: a
  job shadowed by a later one with its identifier takes its edges out of the sort, and a
  need that names no job ends the sort with the nil dereference before the cycle is met.
\<close>

theorem topologicalSort_cyclic_counterexample:
  "\<not> acyclic (edges [jobLiteral ''a'' [''c''], (jobLiteral ''a'' [])\<lparr>ImageName := ''other''\<rparr>,
                      jobLiteral ''c'' [''a'']])
   \<and> topologicalSort [jobLiteral ''a'' [''c''], (jobLiteral ''a'' [])\<lparr>ImageName := ''other''\<rparr>,
                       jobLiteral ''c'' [''a'']]
       = Inr [(jobLiteral ''a'' [])\<lparr>ImageName := ''other''\<rparr>, jobLiteral ''c'' [''a'']]
   \<and> \<not> acyclic (edges [jobLiteral ''a'' [''zz'', ''b''], jobLiteral ''b'' [''a'']])
   \<and> topologicalSort [jobLiteral ''a'' [''zz'', ''b''], jobLiteral ''b'' [''a'']]
       = Inl NilPointerDereference"
proof -
  have "(''a'', ''a'') \<in> {(''a'', ''c''), (''c'', ''a'')}\<^sup>+"
    by (rule trancl_trans [of _ "''c''"]) auto
  then have c1: "\<not> acyclic (edges [jobLiteral ''a'' [''c''],
      (jobLiteral ''a'' [])\<lparr>ImageName := ''other''\<rparr>, jobLiteral ''c'' [''a'']])"
    by (auto simp: acyclic_def edges_list)
  have "(''a'', ''a'') \<in> {(''a'', ''zz''), (''a'', ''b''), (''b'', ''a'')}\<^sup>+"
    by (rule trancl_trans [of _ "''b''"]) auto
  then have c2: "\<not> acyclic (edges [jobLiteral ''a'' [''zz'', ''b''], jobLiteral ''b'' [''a'']])"
    by (auto simp: acyclic_def edges_list)
  have r1: "topologicalSort [jobLiteral ''a'' [''c''],
        (jobLiteral ''a'' [])\<lparr>ImageName := ''other''\<rparr>, jobLiteral ''c'' [''a'']]
       = Inr [(jobLiteral ''a'' [])\<lparr>ImageName := ''other''\<rparr>, jobLiteral ''c'' [''a'']]"
    by (simp add: topologicalSort_def visit.simps jobMap_def)
  have r2: "topologicalSort [jobLiteral ''a'' [''zz'', ''b''], jobLiteral ''b'' [''a'']]
       = Inl NilPointerDereference"
    by (simp add: topologicalSort_def visit.simps jobMap_def)
  show ?thesis
    using c1 c2 r1 r2 by simp
qed

subsection \<open>The job list that the sort receives\<close>

lemma keyJobMap_ran:
  fixes jobs :: "Job list"
  shows "keyJobMap jobs k = Some j \<Longrightarrow> j \<in> set jobs"
proof -
  have "fold (\<lambda>job m. m(ImageName job @ '':'' @ Version job \<mapsto> job)) jobs m0 k = Some j \<Longrightarrow>
      j \<in> set jobs \<or> m0 k = Some j" for m0
  proof (induction jobs arbitrary: m0)
    case Nil
    then show ?case by simp
  next
    case (Cons a jobs)
    from Cons.prems have
      "fold (\<lambda>job m. m(ImageName job @ '':'' @ Version job \<mapsto> job)) jobs
         (m0(ImageName a @ '':'' @ Version a \<mapsto> a)) k = Some j"
      by (simp only: fold_simps)
    from Cons.IH [OF this] show ?case
      by (auto split: if_splits)
  qed
  from this [of Map.empty] show "keyJobMap jobs k = Some j \<Longrightarrow> j \<in> set jobs"
    by (simp add: keyJobMap_def)
qed

lemma attachNeeds_known:
  assumes "attachNeeds fs m jobs = Inr jobs'"
    and "\<forall>k j. m k = Some j \<longrightarrow> ID j \<in> S"
  shows "map ID jobs' = map ID jobs \<and> (\<forall>j \<in> set jobs'. \<forall>d \<in> set (Needs j). d \<in> S)"
  using assms
proof (induction jobs arbitrary: jobs')
  case Nil
  then show ?case by simp
next
  case (Cons job rest)
  from Cons.prems(1) obtain deps rest' where
    rest': "attachNeeds fs m rest = Inr rest'"
    and jobs': "jobs' = job\<lparr>Needs := List.map_filter (\<lambda>dep. map_option ID (m dep)) deps\<rparr> # rest'"
    by (auto split: sum.splits)
  have "\<forall>d \<in> set (List.map_filter (\<lambda>dep. map_option ID (m dep)) deps). d \<in> S"
    using Cons.prems(2) by (auto simp: map_filter_def)
  with Cons.IH [OF rest' Cons.prems(2)] show ?case
    by (simp add: jobs')
qed

lemma orderJobs_needsKnown:
  assumes "attachNeeds fs (keyJobMap jobs) jobs = Inr jobs'"
  shows "needsKnown jobs'"
proof -
  have "\<forall>k j. keyJobMap jobs k = Some j \<longrightarrow> ID j \<in> ID ` set jobs"
    using keyJobMap_ran by blast
  from attachNeeds_known [OF assms this]
  have ids: "map ID jobs' = map ID jobs"
    and needs: "\<forall>j \<in> set jobs'. \<forall>d \<in> set (Needs j). d \<in> ID ` set jobs"
    by simp_all
  from ids have "ID ` set jobs' = ID ` set jobs"
    by (metis list.set_map)
  with needs show ?thesis
    by (simp add: needsKnown_def)
qed


end
